theory Spec2Isabelle
  imports Complex_Main "HOL-Library.Log_Nat" "HOL-Library.AList"
begin

section \<open>Python values used by image\_processor.py\<close>

text \<open>
  Exceptions are values. \<open>ValueError\<close> carries its message because the source raises one
  with a message of its own; the others are raised by the interpreter, the operating
  system or the image codec.
\<close>

datatype py_error =
    ValueError string
  | ZeroDivisionError
  | OverflowError
  | FileNotFoundError
  | IsADirectoryError
  | NotADirectoryError
  | FileExistsError
  | UnidentifiedImageError
  | TypeError

subsection \<open>Floats: IEEE 754 binary64, round to nearest, ties to even\<close>

text \<open>
  A finite float is the rational it denotes; \<open>Infinity\<close> is what an overflowing product
  gives. \<open>round_double\<close> rounds a rational to the nearest double: 53 significant bits,
  least exponent \<open>-1074\<close> (the subnormals), overflow from \<open>2 ^ 1024\<close> on.
\<close>

datatype pyfloat = Finite rat | Infinity

definition pow2 :: "int \<Rightarrow> rat" where
  "pow2 e = (if 0 \<le> e then 2 ^ nat e else 1 / 2 ^ nat (- e))"

definition ilog2 :: "rat \<Rightarrow> int" where
  "ilog2 a = (case quotient_of a of (n, d) \<Rightarrow>
     (let k = bitlen n - bitlen d in if pow2 k \<le> a then k else k - 1))"

definition round_half_even :: "rat \<Rightarrow> int" where
  "round_half_even q = (let f = \<lfloor>q\<rfloor>; r = q - of_int f in
     if r < 1 / 2 then f else if 1 / 2 < r then f + 1 else if even f then f else f + 1)"

definition round_double :: "rat \<Rightarrow> pyfloat" where
  "round_double x = (if x = 0 then Finite 0 else
     (let a = \<bar>x\<bar>; e = max (ilog2 a - 52) (- 1074);
          y = of_int (round_half_even (a / pow2 e)) * pow2 e
      in if pow2 1024 \<le> y then Infinity else Finite (sgn x * y)))"

text \<open>\<open>a / b\<close> on two ints: correctly rounded, raising on a zero divisor or on overflow.\<close>

definition py_truediv :: "int \<Rightarrow> int \<Rightarrow> py_error + rat" where
  "py_truediv a b = (if b = 0 then Inl ZeroDivisionError else
     (case round_double (of_int a / of_int b) of
        Infinity \<Rightarrow> Inl OverflowError
      | Finite q \<Rightarrow> Inr q))"

text \<open>The int operand of \<open>int * float\<close> is converted to a float first.\<close>

definition float_of_int :: "int \<Rightarrow> py_error + rat" where
  "float_of_int n = (case round_double (of_int n) of
        Infinity \<Rightarrow> Inl OverflowError
      | Finite q \<Rightarrow> Inr q)"

definition float_mul :: "rat \<Rightarrow> rat \<Rightarrow> pyfloat" where
  "float_mul a b = round_double (a * b)"

text \<open>\<open>int(x)\<close> on a float truncates toward zero and raises on an infinity.\<close>

definition int_of_float :: "pyfloat \<Rightarrow> py_error + int" where
  "int_of_float x = (case x of
        Infinity \<Rightarrow> Inl OverflowError
      | Finite q \<Rightarrow> Inr (if 0 \<le> q then \<lfloor>q\<rfloor> else \<lceil>q\<rceil>))"

subsection \<open>Paths (posixpath)\<close>

text \<open>
  \<open>os.path.basename(p)\<close> is \<open>p[p.rfind('/') + 1:]\<close>; \<open>os.path.join(a, b)\<close> is \<open>b\<close> when
  \<open>b\<close> is absolute, \<open>a + b\<close> when \<open>a\<close> is empty or ends with a slash, and
  \<open>a + '/' + b\<close> otherwise. Paths are compared as strings.
\<close>

definition basename :: "string \<Rightarrow> string" where
  "basename p = rev (takeWhile (\<lambda>c. c \<noteq> CHR ''/'') (rev p))"

definition dirname :: "string \<Rightarrow> string" where
  "dirname p = rev (drop 1 (dropWhile (\<lambda>c. c \<noteq> CHR ''/'') (rev p)))"

definition path_join :: "string \<Rightarrow> string \<Rightarrow> string" where
  "path_join a b =
     (if b \<noteq> [] \<and> hd b = CHR ''/'' then b
      else if a = [] \<or> last a = CHR ''/'' then a @ b
      else a @ ''/'' @ b)"

subsection \<open>datetime and strftime\<close>

record datetime =
  year :: nat
  month :: nat
  day :: nat
  hour :: nat
  minute :: nat
  second :: nat

definition digit_char :: "nat \<Rightarrow> char" where
  "digit_char n = ''0123456789'' ! (n mod 10)"

function decimal :: "nat \<Rightarrow> string" where
  "decimal n = (if n < 10 then [digit_char n] else decimal (n div 10) @ [digit_char n])"
  by pat_completeness auto
termination
  by (relation "measure id") auto

declare decimal.simps [simp del]

definition zero_pad :: "nat \<Rightarrow> string \<Rightarrow> string" where
  "zero_pad w s = replicate (w - length s) CHR ''0'' @ s"

definition directive :: "char \<Rightarrow> datetime \<Rightarrow> string" where
  "directive d t =
     (if d = CHR ''Y'' then decimal (year t)
      else if d = CHR ''m'' then zero_pad 2 (decimal (month t))
      else if d = CHR ''d'' then zero_pad 2 (decimal (day t))
      else if d = CHR ''H'' then zero_pad 2 (decimal (hour t))
      else if d = CHR ''M'' then zero_pad 2 (decimal (minute t))
      else if d = CHR ''S'' then zero_pad 2 (decimal (second t))
      else [CHR ''%'', d])"

fun strftime :: "string \<Rightarrow> datetime \<Rightarrow> string" where
  "strftime [] t = []"
| "strftime [c] t = [c]"
| "strftime (c # d # fmt) t =
     (if c = CHR ''%'' then directive d t @ strftime fmt t
      else c # strftime (d # fmt) t)"

section \<open>The image codec\<close>

text \<open>
  A decoded raster has a size, a colour mode and pixel data; a pixel is the tuple of its
  band values. The codec is a capability outside the repository: which requests it
  rejects, how it resamples, and the ink of the modes that are not tabulated below, are
  its own business, so they are fields of a record that every operation takes. What the model fixes is the contract the program relies on:
  a resize that is accepted has the requested size and the mode of its input, a new canvas
  has the requested size and mode and is filled with the ink the codec makes of the given
  colour, and a paste overwrites the part of the canvas covered by the pasted raster (what
  falls outside the canvas is cropped).
\<close>

type_synonym color = "int list"

record image =
  img_size :: "int \<times> int"
  img_mode :: string
  img_pixel :: "int \<Rightarrow> int \<Rightarrow> color"

record codec =
  resample :: "image \<Rightarrow> int \<times> int \<Rightarrow> int \<Rightarrow> int \<Rightarrow> color"
  rejects_resize :: "image \<Rightarrow> int \<times> int \<Rightarrow> py_error option"
  rejects_new :: "string \<Rightarrow> int \<times> int \<Rightarrow> color \<Rightarrow> py_error option"
  rejects_save :: "image \<Rightarrow> string \<Rightarrow> py_error option"
  other_ink :: "string \<Rightarrow> color \<Rightarrow> py_error + color"

definition image_resize :: "codec \<Rightarrow> image \<Rightarrow> int \<times> int \<Rightarrow> py_error + image" where
  "image_resize c img sz = (case rejects_resize c img sz of
       Some e \<Rightarrow> Inl e
     | None \<Rightarrow> Inr \<lparr>img_size = sz, img_mode = img_mode img, img_pixel = resample c img sz\<rparr>)"

text \<open>
  The modes whose pixels are 8-bit bands, with their number of bands, from the codec's
  documentation. The other modes (1-bit, 32-bit integer, float, 16-bit) are not in the
  table.
\<close>

definition uint8_bands :: "string \<Rightarrow> nat option" where
  "uint8_bands m =
     (if m \<in> {''L'', ''P''} then Some 1
      else if m \<in> {''LA'', ''PA''} then Some 2
      else if m \<in> {''RGB'', ''YCbCr'', ''LAB'', ''HSV''} then Some 3
      else if m \<in> {''RGBA'', ''CMYK'', ''RGBX''} then Some 4
      else None)"

text \<open>
  The ink of a colour in a mode of 8-bit bands, as the codec's \<open>Image.new\<close> computes it.
  A one-element tuple stands for its element, an int: in a single-band mode the int is
  clipped to \<open>0..255\<close>; in a multi-band mode its four low bytes are the bands, lowest byte
  first, so \<open>(114,)\<close> is 114 in the first band and 0 in the others. A longer tuple gives
  the bands one by one, each clipped to \<open>0..255\<close>, with alpha 255 when it is left out; a
  tuple of the wrong length is a \<open>TypeError\<close>, an element beyond the C integer it is read
  into an \<open>OverflowError\<close>.
\<close>

definition clip8 :: "int \<Rightarrow> int" where
  "clip8 v = (if v \<le> 0 then 0 else if v < 256 then v else 255)"

definition fits_long_long :: "int \<Rightarrow> bool" where
  "fits_long_long v \<longleftrightarrow> - (2 ^ 63) \<le> v \<and> v < 2 ^ 63"

definition fits_c_int :: "int \<Rightarrow> bool" where
  "fits_c_int v \<longleftrightarrow> - (2 ^ 31) \<le> v \<and> v < 2 ^ 31"

definition unpack_bytes :: "nat \<Rightarrow> int \<Rightarrow> color" where
  "unpack_bytes bands v =
     (let r = v mod 256; g = (v div 256) mod 256;
          b = (v div 65536) mod 256; a = (v div 16777216) mod 256
      in if bands = 2 then [r, a] else if bands = 3 then [r, g, b] else [r, g, b, a])"

fun getink8 :: "nat \<Rightarrow> color \<Rightarrow> py_error + color" where
  "getink8 bands [v] =
     (if \<not> fits_long_long v then Inl OverflowError
      else if bands = 1 then Inr [clip8 v]
      else Inr (unpack_bytes bands v))"
| "getink8 bands [r, a] =
     (if bands \<noteq> 2 then Inl TypeError
      else if \<not> (fits_long_long r \<and> fits_c_int a) then Inl OverflowError
      else Inr [clip8 r, clip8 a])"
| "getink8 bands [r, g, b] =
     (if bands \<noteq> 3 \<and> bands \<noteq> 4 then Inl TypeError
      else if \<not> (fits_long_long r \<and> fits_c_int g \<and> fits_c_int b) then Inl OverflowError
      else Inr (take bands [clip8 r, clip8 g, clip8 b, 255]))"
| "getink8 bands [r, g, b, a] =
     (if bands \<noteq> 3 \<and> bands \<noteq> 4 then Inl TypeError
      else if \<not> (fits_long_long r \<and> fits_c_int g \<and> fits_c_int b \<and> fits_c_int a)
        then Inl OverflowError
      else Inr (take bands [clip8 r, clip8 g, clip8 b, clip8 a]))"
| "getink8 bands col = Inl TypeError"

text \<open>
  The ink of a new canvas. In the modes of 8-bit bands it is \<open>getink8\<close>, except for a
  three- or four-element colour in the palette mode \<open>P\<close>, which is looked up in a palette;
  that case and the modes outside the table are left to the codec.
\<close>

definition fill_ink :: "codec \<Rightarrow> string \<Rightarrow> color \<Rightarrow> py_error + color" where
  "fill_ink c mode col = (case uint8_bands mode of
       None \<Rightarrow> other_ink c mode col
     | Some bands \<Rightarrow>
         if mode = ''P'' \<and> (length col = 3 \<or> length col = 4) then other_ink c mode col
         else getink8 bands col)"

definition image_new :: "codec \<Rightarrow> string \<Rightarrow> int \<times> int \<Rightarrow> color \<Rightarrow> py_error + image" where
  "image_new c mode sz col = (case rejects_new c mode sz col of
       Some e \<Rightarrow> Inl e
     | None \<Rightarrow> (case fill_ink c mode col of
         Inl e \<Rightarrow> Inl e
       | Inr ink \<Rightarrow> Inr \<lparr>img_size = sz, img_mode = mode, img_pixel = (\<lambda>x y. ink)\<rparr>))"

definition image_paste :: "image \<Rightarrow> image \<Rightarrow> int \<times> int \<Rightarrow> image" where
  "image_paste dst src off =
     dst\<lparr>img_pixel := (\<lambda>x y.
        if fst off \<le> x \<and> x < fst off + fst (img_size src)
           \<and> snd off \<le> y \<and> y < snd off + snd (img_size src)
           \<and> 0 \<le> x \<and> x < fst (img_size dst) \<and> 0 \<le> y \<and> y < snd (img_size dst)
        then img_pixel src (x - fst off) (y - snd off)
        else img_pixel dst x y)\<rparr>"

section \<open>The filesystem and the clock\<close>

datatype filedata = ImageFile image | OtherFile

datatype node = Dir | File filedata

record world =
  nodes :: "(string \<times> node) list"
  clock :: datetime

definition isdir :: "world \<Rightarrow> string \<Rightarrow> bool" where
  "isdir w p = (map_of (nodes w) p = Some Dir)"

definition child_name :: "string \<Rightarrow> string \<Rightarrow> string option" where
  "child_name d p =
     (let pre = (if d \<noteq> [] \<and> last d = CHR ''/'' then d else d @ ''/'');
          name = drop (length pre) p
      in if take (length pre) p = pre \<and> name \<noteq> [] \<and> CHR ''/'' \<notin> set name
         then Some name else None)"

definition listdir :: "world \<Rightarrow> string \<Rightarrow> string list" where
  "listdir w d = List.map_filter (\<lambda>(p, n). child_name d p) (nodes w)"

definition ancestors :: "string \<Rightarrow> string list" where
  "ancestors p = [take i p. i \<leftarrow> [1..<length p], p ! i = CHR ''/''] @ [p]"

text \<open>\<open>os.makedirs(path, exist_ok=True)\<close>: every missing directory on the way is created.\<close>

fun mkdirs :: "string list \<Rightarrow> world \<Rightarrow> py_error + world" where
  "mkdirs [] w = Inr w"
| "mkdirs (d # ds) w = (case map_of (nodes w) d of
       Some (File f) \<Rightarrow> Inl (if ds = [] then FileExistsError else NotADirectoryError)
     | Some Dir \<Rightarrow> mkdirs ds w
     | None \<Rightarrow> mkdirs ds (w\<lparr>nodes := nodes w @ [(d, Dir)]\<rparr>))"

definition makedirs :: "string \<Rightarrow> world \<Rightarrow> py_error + world" where
  "makedirs p w = mkdirs (ancestors p) w"

definition image_open :: "world \<Rightarrow> string \<Rightarrow> py_error + image" where
  "image_open w p = (case map_of (nodes w) p of
       None \<Rightarrow> Inl FileNotFoundError
     | Some Dir \<Rightarrow> Inl IsADirectoryError
     | Some (File OtherFile) \<Rightarrow> Inl UnidentifiedImageError
     | Some (File (ImageFile img)) \<Rightarrow> Inr img)"

definition image_save :: "codec \<Rightarrow> image \<Rightarrow> string \<Rightarrow> world \<Rightarrow> py_error option \<times> world" where
  "image_save c img p w = (case rejects_save c img p of
       Some e \<Rightarrow> (Some e, w)
     | None \<Rightarrow>
        if map_of (nodes w) p = Some Dir then (Some IsADirectoryError, w)
        else if dirname p \<noteq> [] \<and> \<not> isdir w (dirname p) then (Some FileNotFoundError, w)
        else (None, w\<lparr>nodes := AList.update p (File (ImageFile img)) (nodes w)\<rparr>))"

section \<open>ImageProcessor\<close>

record processor =
  source_folder :: string
  target_size :: int

definition TARGET_SIZE :: int where
  "TARGET_SIZE = 640"

definition OUTPUT_FOLDER :: string where
  "OUTPUT_FOLDER = ''dataset''"

definition DATE_FORMAT :: string where
  "DATE_FORMAT = ''%Y%m%d%H%M%S''"

definition init :: "string \<Rightarrow> int \<Rightarrow> processor" where
  "init folder tsize = \<lparr>source_folder = folder, target_size = tsize\<rparr>"

text \<open>\<open>ImageProcessor()\<close>, with the defaults of both parameters.\<close>

definition init_default :: processor where
  "init_default = init [] TARGET_SIZE"

definition default_pad_color :: color where
  "default_pad_color = [114, 114, 114]"

text \<open>
  The expression \<open>int(side * (size / longer))\<close> of \<open>resize_to_square\<close>; the source's
  \<open>size\<close> is written \<open>sz\<close>.
\<close>

definition scale_dim :: "int \<Rightarrow> int \<Rightarrow> int \<Rightarrow> py_error + int" where
  "scale_dim side sz longer = (case py_truediv sz longer of
       Inl e \<Rightarrow> Inl e
     | Inr ratio \<Rightarrow> (case float_of_int side of
         Inl e \<Rightarrow> Inl e
       | Inr s \<Rightarrow> int_of_float (float_mul s ratio)))"

definition resize_to_square :: "codec \<Rightarrow> processor \<Rightarrow> image \<Rightarrow> int \<Rightarrow> py_error + image" where
  "resize_to_square c self img dimension =
     (let sz = (if dimension \<noteq> 0 then dimension else target_size self);
          width = fst (img_size img);
          height = snd (img_size img)
      in if width > height then
           (case scale_dim height sz width of
              Inl e \<Rightarrow> Inl e
            | Inr new_height \<Rightarrow> image_resize c img (sz, new_height))
         else if height > width then
           (case scale_dim width sz height of
              Inl e \<Rightarrow> Inl e
            | Inr new_width \<Rightarrow> image_resize c img (new_width, sz))
         else image_resize c img (sz, sz))"

definition apply_padding :: "codec \<Rightarrow> processor \<Rightarrow> image \<Rightarrow> color \<Rightarrow> py_error + image" where
  "apply_padding c self resized_img pad_color =
     (let width = fst (img_size resized_img);
          height = snd (img_size resized_img)
      in if width = height then Inr resized_img
         else
           (let col = (if img_mode resized_img = ''RGB'' then pad_color else [114])
            in case image_new c (img_mode resized_img) (target_size self, target_size self) col of
                 Inl e \<Rightarrow> Inl e
               | Inr square_img \<Rightarrow> Inr (image_paste square_img resized_img (0, 0))))"

definition store_image :: "codec \<Rightarrow> image \<Rightarrow> string \<Rightarrow> string \<Rightarrow> world \<Rightarrow> py_error option \<times> world" where
  "store_image c img original_img_path output_dir w =
     (let img_name = basename original_img_path;
          save_path = path_join output_dir img_name
      in image_save c img save_path w)"

definition create_output_folder :: "processor \<Rightarrow> world \<Rightarrow> string" where
  "create_output_folder self w =
     (let timestamped_folder = strftime DATE_FORMAT (clock w)
      in path_join OUTPUT_FOLDER timestamped_folder)"

definition set_source_folder :: "processor \<Rightarrow> string \<Rightarrow> processor" where
  "set_source_folder self path = self\<lparr>source_folder := path\<rparr>"

definition process_single_image ::
    "codec \<Rightarrow> processor \<Rightarrow> string \<Rightarrow> string \<Rightarrow> world \<Rightarrow> py_error option \<times> world" where
  "process_single_image c self image_path output_dir w =
     (case image_open w image_path of
        Inl e \<Rightarrow> (Some e, w)
      | Inr img \<Rightarrow> (case resize_to_square c self img 0 of
          Inl e \<Rightarrow> (Some e, w)
        | Inr resized \<Rightarrow> (case apply_padding c self resized default_pad_color of
            Inl e \<Rightarrow> (Some e, w)
          | Inr padded \<Rightarrow> store_image c padded image_path output_dir w)))"

text \<open>The \<open>for\<close> loop of \<open>process_images_in_folder\<close>: the first exception ends it.\<close>

fun process_entries ::
    "codec \<Rightarrow> processor \<Rightarrow> string \<Rightarrow> string list \<Rightarrow> world \<Rightarrow> py_error option \<times> world" where
  "process_entries c self output_dir [] w = (None, w)"
| "process_entries c self output_dir (img_file # rest) w =
     (let image_path = path_join (source_folder self) img_file
      in case process_single_image c self image_path output_dir w of
           (Some e, w') \<Rightarrow> (Some e, w')
         | (None, w') \<Rightarrow> process_entries c self output_dir rest w')"

definition invalid_source_folder :: py_error where
  "invalid_source_folder =
     ValueError ''Invalid source folder. Please specify a valid folder with set_source_folder().''"

definition process_images_in_folder ::
    "codec \<Rightarrow> processor \<Rightarrow> world \<Rightarrow> py_error option \<times> world" where
  "process_images_in_folder c self w =
     (if \<not> isdir w (source_folder self) then (Some invalid_source_folder, w)
      else
        (let output_dir = create_output_folder self w
         in case makedirs output_dir w of
              Inl e \<Rightarrow> (Some e, w)
            | Inr w1 \<Rightarrow> process_entries c self output_dir (listdir w1 (source_folder self)) w1))"

text \<open>
  One call on a processor, and the processor and the world it leaves behind, whether the
  call returns or raises. Only \<open>set_source_folder\<close> assigns to an attribute.
\<close>

datatype call =
    ProcessImagesInFolder
  | ProcessSingleImage string string
  | ResizeToSquare image int
  | ApplyPadding image color
  | StoreImage image string string
  | CreateOutputFolder
  | SetSourceFolder string

fun invoke :: "codec \<Rightarrow> call \<Rightarrow> processor \<times> world \<Rightarrow> processor \<times> world" where
  "invoke c ProcessImagesInFolder (self, w) = (self, snd (process_images_in_folder c self w))"
| "invoke c (ProcessSingleImage p out) (self, w) = (self, snd (process_single_image c self p out w))"
| "invoke c (ResizeToSquare img d) (self, w) = (self, w)"
| "invoke c (ApplyPadding img col) (self, w) = (self, w)"
| "invoke c (StoreImage img p out) (self, w) = (self, snd (store_image c img p out w))"
| "invoke c CreateOutputFolder (self, w) = (self, w)"
| "invoke c (SetSourceFolder p) (self, w) = (set_source_folder self p, w)"

section \<open>Vocabulary of the properties, and example inputs\<close>

text \<open>
  A clock reading that \<open>datetime.now()\<close> can return from a system clock: a four-digit
  year (for years below 1000 the width of \<open>%Y\<close> depends on the platform's C library) and
  the field ranges of \<open>datetime\<close>.
\<close>

definition valid_clock :: "datetime \<Rightarrow> bool" where
  "valid_clock t \<longleftrightarrow> 1000 \<le> year t \<and> year t \<le> 9999 \<and> 1 \<le> month t \<and> month t \<le> 12
     \<and> 1 \<le> day t \<and> day t \<le> 31 \<and> hour t < 24 \<and> minute t < 60 \<and> second t < 60"

definition is_digit :: "char \<Rightarrow> bool" where
  "is_digit ch \<longleftrightarrow> ch \<in> set ''0123456789''"

text \<open>
  A codec that rejects empty resize targets and negative canvas sizes, and outside the
  8-bit modes takes a one-element colour as it is.
\<close>

definition strict_codec :: codec where
  "strict_codec = \<lparr>
     resample = (\<lambda>img sz x y. img_pixel img 0 0),
     rejects_resize = (\<lambda>img sz. if fst sz < 1 \<or> snd sz < 1
        then Some (ValueError ''height and width must be > 0'') else None),
     rejects_new = (\<lambda>m sz col. if fst sz < 0 \<or> snd sz < 0
        then Some (ValueError ''Width and height must be >= 0'') else None),
     rejects_save = (\<lambda>img p. None),
     other_ink = (\<lambda>m col. if length col = 1 then Inr col else Inl TypeError)\<rparr>"

definition morning :: datetime where
  "morning = \<lparr>year = 2024, month = 3, day = 9, hour = 7, minute = 5, second = 0\<rparr>"

definition empty_world :: world where
  "empty_world = \<lparr>nodes = [], clock = morning\<rparr>"

definition out_world :: world where
  "out_world = \<lparr>nodes = [(''out'', Dir)], clock = morning\<rparr>"

definition ycbcr_image :: image where
  "ycbcr_image = \<lparr>img_size = (4, 2), img_mode = ''YCbCr'', img_pixel = (\<lambda>x y. [16, 128, 128])\<rparr>"

definition rgb_image :: image where
  "rgb_image = \<lparr>img_size = (4, 2), img_mode = ''RGB'', img_pixel = (\<lambda>x y. [x, y, 0])\<rparr>"

definition rgba_image :: image where
  "rgba_image = \<lparr>img_size = (2, 4), img_mode = ''RGBA'', img_pixel = (\<lambda>x y. [x, y, 0, 255])\<rparr>"

definition gray_square :: image where
  "gray_square = \<lparr>img_size = (50, 50), img_mode = ''L'', img_pixel = (\<lambda>x y. [x + y])\<rparr>"

text \<open>
  The spec's formula \<open>round(side * size / longer)\<close> for the scaled side, on the exact
  quotient.
\<close>

definition spec_round_dim :: "int \<Rightarrow> int \<Rightarrow> int \<Rightarrow> int" where
  "spec_round_dim side sz longer = round (of_int (side * sz) / of_int longer :: rat)"

definition tiny_image :: image where
  "tiny_image = \<lparr>img_size = (3, 2), img_mode = ''RGB'', img_pixel = (\<lambda>x y. [x, y, 0])\<rparr>"

definition photo :: image where
  "photo = \<lparr>img_size = (800, 401), img_mode = ''RGB'', img_pixel = (\<lambda>x y. [x mod 256, y mod 256, 0])\<rparr>"


section \<open>How \<open>int(side * (size / longer))\<close> rounds\<close>

text \<open>
  Powers of two, the exponent chosen by \<open>ilog2\<close>, and the error of one rounding to a
  double, at most the value divided by \<open>2 ^ 53\<close> in the normal range.
\<close>

lemma pow2_powi: "pow2 e = 2 powi e"
  by (simp add: pow2_def power_int_def field_simps)

lemma pow2_pos: "0 < pow2 e"
  by (simp add: pow2_powi)

lemma pow2_add: "pow2 (a + b) = pow2 a * pow2 b"
  by (simp add: pow2_powi power_int_add)

lemma pow2_diff: "pow2 (a - b) = pow2 a / pow2 b"
  by (simp add: pow2_powi power_int_diff)

lemma pow2_mono: "a \<le> b \<Longrightarrow> pow2 a \<le> pow2 b"
  by (simp add: pow2_powi power_int_increasing)

lemma pow2_less_iff: "pow2 a < pow2 b \<longleftrightarrow> a < b"
proof
  assume "pow2 a < pow2 b"
  show "a < b"
  proof (rule ccontr)
    assume "\<not> a < b"
    then have "pow2 b \<le> pow2 a" by (simp add: pow2_mono)
    with \<open>pow2 a < pow2 b\<close> show False by simp
  qed
next
  assume "a < b"
  then show "pow2 a < pow2 b"
    by (simp add: pow2_powi power_int_strict_increasing)
qed

lemma pow2_nat: "0 \<le> e \<Longrightarrow> pow2 e = of_int (2 ^ nat e)"
  by (simp add: pow2_def)

lemma bitlen_pow2_bounds:
  assumes "0 < n"
  shows "pow2 (bitlen n - 1) \<le> of_int n" and "of_int n < pow2 (bitlen n)"
proof -
  from assms have b: "1 \<le> bitlen n" by (simp add: bitlen_alt_def)
  from bitlen_bounds [OF assms]
  have l: "2 ^ nat (bitlen n - 1) \<le> n" and u: "n < 2 ^ nat (bitlen n)" by simp_all
  from b have "pow2 (bitlen n - 1) = of_int (2 ^ nat (bitlen n - 1))" by (simp add: pow2_nat)
  also from l have "\<dots> \<le> of_int n" by (simp only: of_int_le_iff)
  finally show "pow2 (bitlen n - 1) \<le> of_int n" .
  from u have "(of_int n :: rat) < of_int (2 ^ nat (bitlen n))" by (simp only: of_int_less_iff)
  also from b have "\<dots> = pow2 (bitlen n)" by (simp add: pow2_nat)
  finally show "of_int n < pow2 (bitlen n)" .
qed

lemma ilog2_bounds:
  assumes "0 < a"
  shows "pow2 (ilog2 a) \<le> a \<and> a < pow2 (ilog2 a + 1)"
proof -
  obtain n d where q: "quotient_of a = (n, d)" by (cases "quotient_of a")
  have d: "0 < d" using quotient_of_denom_pos [OF q] .
  have a: "a = of_int n / of_int d" using quotient_of_div [OF q] .
  have n: "0 < n" using assms a d by (simp add: zero_less_divide_iff)
  define k where "k = bitlen n - bitlen d"
  note nb = bitlen_pow2_bounds [OF n] and db = bitlen_pow2_bounds [OF d]
  have dpos: "(0::rat) < of_int d" using d by simp
  have "pow2 (k - 1) * of_int d < pow2 (k - 1) * pow2 (bitlen d)"
    using db(2) pow2_pos [of "k - 1"] by simp
  also have "\<dots> = pow2 (bitlen n - 1)"
    by (simp add: k_def pow2_add [symmetric])
  also have "\<dots> \<le> of_int n" by (rule nb(1))
  finally have lower: "pow2 (k - 1) < a"
    using dpos by (simp add: a pos_less_divide_eq)
  have "of_int n < pow2 (bitlen n)" by (rule nb(2))
  also have "\<dots> = pow2 (k + 1) * pow2 (bitlen d - 1)"
    by (simp add: k_def pow2_add [symmetric])
  also have "\<dots> \<le> pow2 (k + 1) * of_int d"
    using db(1) pow2_pos [of "k + 1"] by simp
  finally have upper: "a < pow2 (k + 1)"
    using dpos by (simp add: a pos_divide_less_eq)
  have il: "ilog2 a = (if pow2 k \<le> a then k else k - 1)"
    by (simp add: ilog2_def q k_def Let_def)
  show ?thesis
  proof (cases "pow2 k \<le> a")
    case True
    with il upper show ?thesis by simp
  next
    case False
    with il lower show ?thesis by simp
  qed
qed

lemma ilog2_unique:
  assumes "0 < a" and "pow2 k \<le> a" and "a < pow2 (k + 1)"
  shows "ilog2 a = k"
proof -
  from ilog2_bounds [OF assms(1)]
  have l: "pow2 (ilog2 a) \<le> a" and u: "a < pow2 (ilog2 a + 1)" by simp_all
  from l assms(3) have "pow2 (ilog2 a) < pow2 (k + 1)" by simp
  then have "ilog2 a < k + 1" by (simp only: pow2_less_iff)
  moreover from assms(2) u have "pow2 k < pow2 (ilog2 a + 1)" by simp
  then have "k < ilog2 a + 1" by (simp only: pow2_less_iff)
  ultimately show ?thesis by simp
qed

lemma round_half_even_error: "\<bar>of_int (round_half_even q) - q\<bar> \<le> 1 / 2"
proof -
  have "of_int \<lfloor>q\<rfloor> \<le> q" "q < of_int \<lfloor>q\<rfloor> + 1" by linarith+
  then show ?thesis
    by (auto simp add: round_half_even_def Let_def)
qed

lemma round_half_even_of_int: "round_half_even (of_int k) = k"
  by (simp add: round_half_even_def)

lemma pow2_numeral_53: "pow2 53 = 2 ^ 53"
  by (simp add: pow2_def)

lemma pow2_numeral_52: "pow2 52 = 2 ^ 52"
  by (simp add: pow2_def)

lemma round_double_normal:
  assumes "0 < x" and "pow2 (- 1022) \<le> x" and "x < pow2 1023"
  shows "\<exists>y. round_double x = Finite y \<and> \<bar>y - x\<bar> \<le> x / 2 ^ 53"
proof -
  define lg where "lg = ilog2 x"
  from ilog2_bounds [OF assms(1)]
  have l: "pow2 lg \<le> x" and u: "x < pow2 (lg + 1)" by (simp_all add: lg_def)
  from assms(2) u have "pow2 (- 1022) < pow2 (lg + 1)" by simp
  then have lg: "- 1022 \<le> lg" by (simp add: pow2_less_iff)
  define e where "e = lg - 52"
  have emax: "max (ilog2 x - 52) (- 1074) = e"
    using lg by (simp add: e_def lg_def)
  define m where "m = round_half_even (x / pow2 e)"
  define y where "y = of_int m * pow2 e"
  have pe: "0 < pow2 e" by (rule pow2_pos)
  have "y - x = (of_int m - x / pow2 e) * pow2 e"
    using pe by (simp add: y_def field_simps)
  then have "\<bar>y - x\<bar> = \<bar>of_int m - x / pow2 e\<bar> * pow2 e"
    using pe by (simp add: abs_mult)
  also have "\<dots> \<le> (1 / 2) * pow2 e"
    using round_half_even_error [of "x / pow2 e"] pe
    by (intro mult_right_mono) (simp_all add: m_def)
  also have "pow2 e = pow2 lg / 2 ^ 52"
    by (simp add: e_def pow2_diff pow2_numeral_52)
  also have "(1 / 2) * (pow2 lg / 2 ^ 52) = pow2 lg / 2 ^ 53" by simp
  also have "\<dots> \<le> x / 2 ^ 53"
    using l by (simp add: divide_right_mono)
  finally have err: "\<bar>y - x\<bar> \<le> x / 2 ^ 53" .
  have "x / 2 ^ 53 \<le> x" using assms(1) by (simp add: field_simps)
  with err have "y \<le> x + x" by linarith
  also have "\<dots> < pow2 1023 + pow2 1023" using assms(3) by simp
  also have "\<dots> = pow2 1024"
    using pow2_add [of 1023 1] by (simp add: pow2_def)
  finally have no: "\<not> pow2 1024 \<le> y" by simp
  have "round_double x = Finite y"
    using assms(1) no emax
    by (simp add: round_double_def Let_def y_def m_def)
  with err show ?thesis by blast
qed

lemma round_double_of_int:
  assumes "0 \<le> n" and "n < 2 ^ 53"
  shows "round_double (of_int n) = Finite (of_int n)"
proof (cases "n = 0")
  case True
  then show ?thesis by (simp add: round_double_def)
next
  case False
  with assms have n: "0 < n" by simp
  define x :: rat where "x = of_int n"
  have x: "0 < x" using n by (simp add: x_def)
  define lg where "lg = ilog2 x"
  from ilog2_bounds [OF x]
  have l: "pow2 lg \<le> x" and u: "x < pow2 (lg + 1)" by (simp_all add: lg_def)
  have "pow2 0 \<le> x" using n by (simp add: pow2_def x_def)
  with u have "pow2 0 < pow2 (lg + 1)" by simp
  then have lg0: "0 \<le> lg" by (simp add: pow2_less_iff)
  have "(of_int n :: rat) < of_int (2 ^ 53)" using assms(2) by (simp only: of_int_less_iff)
  then have x53: "x < pow2 53" by (simp add: x_def pow2_numeral_53)
  with l have "pow2 lg < pow2 53" by simp
  then have lg52: "lg \<le> 52" by (simp add: pow2_less_iff)
  define e where "e = lg - 52"
  have emax: "max (ilog2 x - 52) (- 1074) = e"
    using lg0 by (simp add: e_def lg_def)
  define j where "j = nat (52 - lg)"
  have "pow2 e * pow2 (- e) = 1"
    using pow2_add [of e "- e"] by (simp add: pow2_def)
  moreover have pne: "pow2 (- e) = of_int (2 ^ j)"
    using lg52 by (simp add: pow2_nat e_def j_def)
  ultimately have inv: "pow2 e * of_int (2 ^ j) = 1" by simp
  have pe: "0 < pow2 e" by (rule pow2_pos)
  from inv pe have "x / pow2 e = x * of_int (2 ^ j)"
    by (simp add: field_simps)
  also have "\<dots> = of_int (n * 2 ^ j)" by (simp add: x_def)
  finally have "round_half_even (x / pow2 e) = n * 2 ^ j"
    by (simp only: round_half_even_of_int)
  then have "of_int (round_half_even (x / pow2 e)) * pow2 e = x * (of_int (2 ^ j) * pow2 e)"
    by (simp add: x_def)
  also have "\<dots> = x" using inv by (simp add: mult.commute)
  finally have y: "of_int (round_half_even (x / pow2 e)) * pow2 e = x" .
  have "pow2 53 \<le> pow2 1024" by (rule pow2_mono) simp
  with x53 have no: "\<not> pow2 1024 \<le> x" by simp
  have "round_double x = Finite x"
    using x no emax by (simp add: round_double_def Let_def y)
  then show ?thesis by (simp add: x_def)
qed

text \<open>
  The scaled side. For sides below \<open>2 ^ 31\<close> and sizes below \<open>2 ^ 20\<close> the three
  roundings (the quotient, the product, the truncation) give the floor of the exact
  quotient \<open>side * size / longer\<close>, except that an exact integer quotient can come out
  one less: the rounded product may fall just below it.
\<close>

lemma scale_dim_floor:
  assumes side0: "0 \<le> side" and sl: "side < longer" and l31: "longer < 2 ^ 31"
    and sz0: "0 < sz" and sz20: "sz < 2 ^ 20"
  shows "\<exists>n. scale_dim side sz longer = Inr n
     \<and> (\<not> longer dvd side * sz \<longrightarrow> n = side * sz div longer)
     \<and> (longer dvd side * sz \<longrightarrow> n = side * sz div longer \<or> n = side * sz div longer - 1)"
proof -
  define L :: rat where "L = of_int longer"
  define Z :: rat where "Z = of_int sz"
  define S :: rat where "S = of_int side"
  define q where "q = Z / L"
  from side0 sl have lpos: "0 < longer" by simp
  then have L0: "0 < L" and L1: "1 \<le> L" by (simp_all add: L_def)
  have L31: "L < 2 ^ 31"
  proof -
    from l31 have "(of_int longer :: rat) < of_int (2 ^ 31)" by (simp only: of_int_less_iff)
    then show ?thesis by (simp add: L_def)
  qed
  have Z1: "1 \<le> Z" using sz0 by (simp add: Z_def)
  have Z20: "Z < 2 ^ 20"
  proof -
    from sz20 have "(of_int sz :: rat) < of_int (2 ^ 20)" by (simp only: of_int_less_iff)
    then show ?thesis by (simp add: Z_def)
  qed
  have S0: "0 \<le> S" using side0 by (simp add: S_def)
  have S31: "S < 2 ^ 31"
  proof -
    from sl l31 have "side < 2 ^ 31" by simp
    then have "(of_int side :: rat) < of_int (2 ^ 31)" by (simp only: of_int_less_iff)
    then show ?thesis by (simp add: S_def)
  qed
  have q0: "0 < q" using L0 Z1 by (simp add: q_def)
  have qlow: "1 / 2 ^ 31 < q"
  proof -
    have "1 / 2 ^ 31 < 1 / L" using L0 L31 by (simp add: frac_less2)
    also have "\<dots> \<le> Z / L" using Z1 L0 by (simp add: divide_right_mono)
    finally show ?thesis by (simp add: q_def)
  qed
  have qhigh: "q < 2 ^ 20"
  proof -
    have "Z / L \<le> Z / 1" using L1 Z1 by (intro divide_left_mono) simp_all
    with Z20 show ?thesis by (simp add: q_def)
  qed
  have "pow2 (- 1022) \<le> pow2 (- 31)" by (rule pow2_mono) simp
  also have "pow2 (- 31) = 1 / 2 ^ 31" by (simp add: pow2_def)
  finally have qn1: "pow2 (- 1022) \<le> q" using qlow by simp
  have "pow2 20 \<le> pow2 1023" by (rule pow2_mono) simp
  moreover have "pow2 20 = 2 ^ 20" by (simp add: pow2_def)
  ultimately have qn2: "q < pow2 1023" using qhigh by simp
  from round_double_normal [OF q0 qn1 qn2]
  obtain f where f: "round_double q = Finite f" and ferr: "\<bar>f - q\<bar> \<le> q / 2 ^ 53" by blast
  have td: "py_truediv sz longer = Inr f"
    using lpos f by (simp add: py_truediv_def q_def Z_def L_def)
  have "side < 2 ^ 53" using sl l31 by simp
  then have fi: "float_of_int side = Inr S"
    using side0 by (simp add: float_of_int_def round_double_of_int S_def)
  have sd: "scale_dim side sz longer = int_of_float (round_double (S * f))"
    by (simp add: scale_dim_def td fi float_mul_def)
  show ?thesis
  proof (cases "side = 0")
    case True
    then have "S = 0" by (simp add: S_def)
    then have "int_of_float (round_double (S * f)) = Inr 0"
      by (simp add: round_double_def int_of_float_def)
    with sd have "scale_dim side sz longer = Inr 0" by simp
    with True show ?thesis by simp
  next
    case False
    with side0 have S1: "1 \<le> S" by (simp add: S_def)
    define t where "t = S * f"
    define x where "x = S * q"
    have x0: "0 < x" using S1 q0 by (simp add: x_def)
    have "q / 2 ^ 53 \<le> q / 2" using q0 by (simp add: field_simps)
    with ferr have fhalf: "q / 2 \<le> f" by linarith
    then have f0: "0 < f" using q0 by linarith
    have t0: "0 < t" using S1 f0 by (simp add: t_def)
    have tx: "\<bar>t - x\<bar> \<le> x / 2 ^ 53"
    proof -
      have "t - x = S * (f - q)" by (simp add: t_def x_def algebra_simps)
      then have "\<bar>t - x\<bar> = S * \<bar>f - q\<bar>" using S0 by (simp add: abs_mult)
      also have "\<dots> \<le> S * (q / 2 ^ 53)" using ferr S0 by (rule mult_left_mono)
      finally show ?thesis by (simp add: x_def)
    qed
    have xhigh: "x < 2 ^ 51"
    proof -
      have "S * q < 2 ^ 31 * 2 ^ 20"
        using S31 qhigh S0 q0 by (intro mult_strict_mono) simp_all
      then show ?thesis by (simp add: x_def)
    qed
    have tlow: "pow2 (- 1022) \<le> t"
    proof -
      have "1 / 2 ^ 32 \<le> q / 2" using qlow by simp
      also have "\<dots> \<le> f" by (rule fhalf)
      also have "f \<le> S * f" using S1 f0 by simp
      finally have "1 / 2 ^ 32 \<le> t" by (simp add: t_def)
      moreover have "pow2 (- 1022) \<le> pow2 (- 32)" by (rule pow2_mono) simp
      moreover have "pow2 (- 32) = 1 / 2 ^ 32" by (simp add: pow2_def)
      ultimately show ?thesis by simp
    qed
    have "x / 2 ^ 53 \<le> x" using x0 by (simp add: field_simps)
    with tx have t2x: "t \<le> 2 * x" by linarith
    have thigh: "t < pow2 1023"
    proof -
      from t2x xhigh have "t < 2 ^ 52" by simp
      moreover have "pow2 52 \<le> pow2 1023" by (rule pow2_mono) simp
      ultimately show ?thesis by (simp add: pow2_numeral_52)
    qed
    from round_double_normal [OF t0 tlow thigh]
    obtain p where p: "round_double t = Finite p" and perr: "\<bar>p - t\<bar> \<le> t / 2 ^ 53" by blast
    have "t / 2 ^ 53 \<le> t / 2" using t0 by (simp add: field_simps)
    with perr t0 have p0: "0 \<le> p" by linarith
    have res: "scale_dim side sz longer = Inr \<lfloor>p\<rfloor>"
      using p p0 by (simp add: sd t_def int_of_float_def)
    have "t / 2 ^ 53 \<le> (2 * x) / 2 ^ 53" using t2x by (simp add: divide_right_mono)
    with perr tx have px: "\<bar>p - x\<bar> \<le> 3 * x / 2 ^ 53" by linarith
    define N where "N = side * sz"
    define k where "k = N div longer"
    define r where "r = N mod longer"
    have xN: "x = of_int N / L" by (simp add: x_def q_def N_def S_def Z_def)
    have "of_int N = S * Z" by (simp add: N_def S_def Z_def)
    also have "\<dots> < 2 ^ 31 * 2 ^ 20"
      using S31 Z20 S0 Z1 by (intro mult_strict_mono) simp_all
    finally have Nhigh: "(of_int N :: rat) < 2 ^ 51" by simp
    then have "3 * of_int N / 2 ^ 53 < (1::rat)" by simp
    then have "(3 * of_int N / 2 ^ 53) / L < 1 / L"
      using L0 by (rule divide_strict_right_mono)
    moreover have "3 * x / 2 ^ 53 = (3 * of_int N / 2 ^ 53) / L" by (simp add: xN)
    ultimately have "3 * x / 2 ^ 53 < 1 / L" by simp
    with px have close: "\<bar>p - x\<bar> < 1 / L" by simp
    have "N = k * longer + r" by (simp add: k_def r_def)
    then have "(of_int N :: rat) = of_int k * L + of_int r" by (simp add: L_def)
    then have xk: "x = of_int k + of_int r / L"
      using L0 by (simp add: xN field_simps)
    have r0: "0 \<le> r" and rl: "r < longer"
      using lpos by (simp_all add: r_def)
    have res': "scale_dim side sz longer = Inr \<lfloor>p\<rfloor>" by (rule res)
    show ?thesis
    proof (cases "longer dvd side * sz")
      case False
      then have "r \<noteq> 0" by (simp add: r_def N_def dvd_eq_mod_eq_0)
      with r0 rl have r1: "1 \<le> r" and r2: "r \<le> longer - 1" by simp_all
      from r1 have "(of_int 1 :: rat) \<le> of_int r" by (simp only: of_int_le_iff)
      then have q1: "(1::rat) \<le> of_int r" by simp
      from r2 have "(of_int r :: rat) \<le> of_int (longer - 1)" by (simp only: of_int_le_iff)
      then have q2: "(of_int r :: rat) \<le> L - 1" by (simp add: L_def)
      from q1 q2 have "1 / L \<le> of_int r / L" "of_int r / L \<le> (L - 1) / L"
        using L0 by (simp_all add: divide_right_mono)
      moreover have "(L - 1) / L = 1 - 1 / L" using L0 by (simp add: field_simps)
      ultimately have "of_int k + 1 / L \<le> x" "x \<le> of_int k + 1 - 1 / L"
        by (simp_all add: xk)
      with close have "of_int k \<le> p" "p < of_int k + 1" by linarith+
      then have "\<lfloor>p\<rfloor> = k" by (simp add: floor_unique)
      with False res' show ?thesis by (simp add: k_def N_def)
    next
      case True
      then have "r = 0" by (simp add: r_def N_def)
      then have xk': "x = of_int k" by (simp add: xk)
      have "1 / L \<le> 1" using L1 by simp
      with close have b: "of_int k - 1 < p" "p < of_int k + 1" by (simp_all add: xk')
      have "\<lfloor>p\<rfloor> = k \<or> \<lfloor>p\<rfloor> = k - 1"
      proof (cases "of_int k \<le> p")
        case True
        with b have "\<lfloor>p\<rfloor> = k" by (simp add: floor_unique)
        then show ?thesis by simp
      next
        case False
        with b have "of_int (k - 1) \<le> p" "p < of_int (k - 1) + 1" by simp_all
        then have "\<lfloor>p\<rfloor> = k - 1" by (rule floor_unique)
        then show ?thesis by simp
      qed
      with True res' show ?thesis by (auto simp add: k_def N_def)
    qed
  qed
qed

lemma scale_dim_exact:
  assumes "0 \<le> side" and "side < longer" and "longer < 2 ^ 31" and "0 < sz" and "sz < 2 ^ 20"
    and "\<not> longer dvd side * sz"
  shows "scale_dim side sz longer = Inr (side * sz div longer)"
  using scale_dim_floor [OF assms(1-5)] assms(6) by auto

lemma image_resize_size: "image_resize c img s = Inr r \<Longrightarrow> img_size r = s"
  by (auto simp add: image_resize_def split: option.splits)


text \<open>
  The exception occurs: a 154 by 77 image resized to 640 gets the height 319, not 320.
\<close>

lemma round_half_even_down:
  assumes "of_int f \<le> q" and "q < of_int f + 1 / 2"
  shows "round_half_even q = f"
proof -
  from assms have "\<lfloor>q\<rfloor> = f" by (intro floor_unique) simp_all
  with assms show ?thesis by (simp add: round_half_even_def Let_def)
qed

lemma round_double_eval:
  assumes "0 < x" and "pow2 k \<le> x" and "x < pow2 (k + 1)" and "- 1022 \<le> k" and "k < 1023"
  shows "round_double x = Finite (of_int (round_half_even (x / pow2 (k - 52))) * pow2 (k - 52))"
proof -
  have k: "ilog2 x = k" using assms(1-3) by (rule ilog2_unique)
  have "pow2 (- 1022) \<le> pow2 k" using assms(4) by (rule pow2_mono)
  with assms(2) have lo: "pow2 (- 1022) \<le> x" by simp
  have "pow2 (k + 1) \<le> pow2 1023" using assms(5) by (intro pow2_mono) simp
  with assms(3) have hi: "x < pow2 1023" by simp
  from round_double_normal [OF assms(1) lo hi]
  obtain y where y: "round_double x = Finite y" by blast
  have "max (k - 52) (- 1074) = k - 52" using assms(4) by simp
  then have "round_double x =
      (if pow2 1024 \<le> of_int (round_half_even (x / pow2 (k - 52))) * pow2 (k - 52) then Infinity
       else Finite (of_int (round_half_even (x / pow2 (k - 52))) * pow2 (k - 52)))"
    using assms(1) by (simp add: round_double_def Let_def k)
  with y show ?thesis by (auto split: if_splits)
qed

lemma scale_dim_one_less:
  "scale_dim 77 640 154 = Inr 319 \<and> (77 * 640 div 154 :: int) = 320 \<and> (154::int) dvd 77 * 640"
proof -
  define a :: rat where "a = (320 / 77) / pow2 (2 - 52)"
  have m1: "round_half_even a = 4679064547917398"
    by (rule round_half_even_down) (simp_all add: a_def pow2_def)
  have rd: "round_double (320 / 77) = Finite (of_int (round_half_even a) * pow2 (2 - 52))"
    unfolding a_def by (rule round_double_eval) (simp_all add: pow2_def)
  have q: "round_double (320 / 77) = Finite (4679064547917398 / 2 ^ 50)"
    unfolding rd m1 by (simp add: pow2_def)
  have td: "py_truediv 640 154 = Inr (4679064547917398 / 2 ^ 50)"
    using q by (simp add: py_truediv_def)
  have "round_double (of_int 77) = Finite (of_int 77)"
    by (rule round_double_of_int) simp_all
  then have fi: "float_of_int 77 = Inr 77" by (simp add: float_of_int_def)
  define t :: rat where "t = 77 * (4679064547917398 / 2 ^ 50)"
  define b :: rat where "b = t / pow2 (8 - 52)"
  have m2: "round_half_even b = 5629499534213119"
    by (rule round_half_even_down) (simp_all add: b_def pow2_def t_def)
  have rt: "round_double t = Finite (of_int (round_half_even b) * pow2 (8 - 52))"
    unfolding b_def by (rule round_double_eval) (simp_all add: pow2_def t_def)
  have p: "round_double t = Finite (5629499534213119 / 2 ^ 44)"
    unfolding rt m2 by (simp add: pow2_def)
  have "\<lfloor>5629499534213119 / 2 ^ 44 :: rat\<rfloor> = 319"
    by (rule floor_unique) simp_all
  then have "int_of_float (round_double t) = Inr 319"
    by (simp add: p int_of_float_def)
  then have "scale_dim 77 640 154 = Inr 319"
    by (simp add: scale_dim_def td fi float_mul_def t_def)
  then show ?thesis by simp
qed

section \<open>The dimensions of the resized image\<close>

text \<open>
  Claim C1, as stated, rounds the scaled side to the nearest integer. The source truncates:
  a 3 by 2 image resized to 640 gets the height \<open>int(2 * (640 / 3)) = 426\<close>, where
  \<open>round(2 * 640 / 3) = 427\<close>.
\<close>

theorem resize_to_square_truncates:
  "snd (img_size tiny_image) < fst (img_size tiny_image)
   \<and> resize_to_square strict_codec (init ''in'' 640) tiny_image 0
       = Inr \<lparr>img_size = (640, 426), img_mode = ''RGB'',
              img_pixel = resample strict_codec tiny_image (640, 426)\<rparr>
   \<and> spec_round_dim (snd (img_size tiny_image)) 640 (fst (img_size tiny_image)) = 427
   \<and> snd (img_size (projr (resize_to_square strict_codec (init ''in'' 640) tiny_image 0)))
       \<noteq> spec_round_dim (snd (img_size tiny_image)) 640 (fst (img_size tiny_image))"
proof -
  have "scale_dim 2 640 3 = Inr (2 * 640 div 3)"
    by (rule scale_dim_exact) simp_all
  then have s: "scale_dim 2 640 3 = Inr 426" by simp
  have "resize_to_square strict_codec (init ''in'' 640) tiny_image 0
       = Inr \<lparr>img_size = (640, 426), img_mode = ''RGB'',
              img_pixel = resample strict_codec tiny_image (640, 426)\<rparr>"
    by (simp add: resize_to_square_def init_def tiny_image_def s image_resize_def strict_codec_def)
  moreover have "\<lfloor>2563 / 6 :: rat\<rfloor> = 427"
    by (rule floor_unique) simp_all
  then have "spec_round_dim 2 640 3 = 427"
    by (simp add: spec_round_dim_def round_def)
  ultimately show ?thesis by (simp add: tiny_image_def)
qed

text \<open>
  Claim C1, amended. For an image with sides below \<open>2 ^ 31\<close> and a size from 1 to
  \<open>2 ^ 20 - 1\<close>, \<open>resize_to_square\<close> asks the codec for these dimensions, and a raster
  it returns has them: the longer side becomes \<open>size\<close>; the other side becomes
  \<open>int(side * (size / longer))\<close>, the float product truncated, which is the floor of
  \<open>side * size / longer\<close>, or one less than it when \<open>longer\<close> divides \<open>side * size\<close>;
  for a square image both sides become \<open>size\<close>.
\<close>

theorem resize_to_square_dimensions:
  assumes "img_size img = (width, height)"
    and "0 \<le> width" and "width < 2 ^ 31" and "0 \<le> height" and "height < 2 ^ 31"
    and "sz = (if dimension \<noteq> 0 then dimension else target_size self)"
    and "0 < sz" and "sz < 2 ^ 20"
  shows "\<exists>new_width new_height.
      resize_to_square c self img dimension = image_resize c img (new_width, new_height)
    \<and> (\<forall>r. resize_to_square c self img dimension = Inr r
          \<longrightarrow> img_size r = (new_width, new_height))
    \<and> (height < width \<longrightarrow> new_width = sz
          \<and> (new_height = height * sz div width
              \<or> width dvd height * sz \<and> new_height = height * sz div width - 1))
    \<and> (width < height \<longrightarrow> new_height = sz
          \<and> (new_width = width * sz div height
              \<or> height dvd width * sz \<and> new_width = width * sz div height - 1))
    \<and> (width = height \<longrightarrow> new_width = sz \<and> new_height = sz)"
proof -
  have sz: "(if dimension \<noteq> 0 then dimension else target_size self) = sz"
    using assms(6) by simp
  consider (wide) "height < width" | (tall) "width < height" | (square) "width = height"
    by linarith
  then show ?thesis
  proof cases
    case wide
    from scale_dim_floor [OF assms(4) wide assms(3) assms(7) assms(8)]
    obtain n where n: "scale_dim height sz width = Inr n"
      and nd: "\<not> width dvd height * sz \<longrightarrow> n = height * sz div width"
      and dv: "width dvd height * sz \<longrightarrow> n = height * sz div width \<or> n = height * sz div width - 1"
      by blast
    have e: "resize_to_square c self img dimension = image_resize c img (sz, n)"
      using wide by (simp add: resize_to_square_def Let_def assms(1) sz n)
    then have "\<forall>r. resize_to_square c self img dimension = Inr r \<longrightarrow> img_size r = (sz, n)"
      by (simp add: image_resize_size)
    with e nd dv wide show ?thesis by (intro exI [of _ sz] exI [of _ n]) auto
  next
    case tall
    from scale_dim_floor [OF assms(2) tall assms(5) assms(7) assms(8)]
    obtain n where n: "scale_dim width sz height = Inr n"
      and nd: "\<not> height dvd width * sz \<longrightarrow> n = width * sz div height"
      and dv: "height dvd width * sz \<longrightarrow> n = width * sz div height \<or> n = width * sz div height - 1"
      by blast
    have e: "resize_to_square c self img dimension = image_resize c img (n, sz)"
      using tall by (simp add: resize_to_square_def Let_def assms(1) sz n)
    then have "\<forall>r. resize_to_square c self img dimension = Inr r \<longrightarrow> img_size r = (n, sz)"
      by (simp add: image_resize_size)
    with e nd dv tall show ?thesis by (intro exI [of _ n] exI [of _ sz]) auto
  next
    case square
    have e: "resize_to_square c self img dimension = image_resize c img (sz, sz)"
      using square by (simp add: resize_to_square_def Let_def assms(1) sz)
    then have "\<forall>r. resize_to_square c self img dimension = Inr r \<longrightarrow> img_size r = (sz, sz)"
      by (simp add: image_resize_size)
    with e square show ?thesis by (intro exI [of _ sz]) auto
  qed
qed

theorem resize_to_square_dimensions_witness:
  "img_size photo = (800, 401) \<and> (640::int) = (if (0::int) \<noteq> 0 then 0 else target_size (init ''in'' 640))
   \<and> resize_to_square strict_codec (init ''in'' 640) photo 0
        = image_resize strict_codec photo (640, 320)
   \<and> image_resize strict_codec photo (640, 320)
        = Inr \<lparr>img_size = (640, 320), img_mode = ''RGB'',
               img_pixel = resample strict_codec photo (640, 320)\<rparr>"
proof -
  have h1: "img_size photo = (800, 401)" by (simp add: photo_def)
  have h6: "(640::int) = (if (0::int) \<noteq> 0 then 0 else target_size (init ''in'' 640))"
    by (simp add: init_def)
  from resize_to_square_dimensions [OF h1 _ _ _ _ h6, of strict_codec]
  obtain nw nh where e: "resize_to_square strict_codec (init ''in'' 640) photo 0
        = image_resize strict_codec photo (nw, nh)"
    and w: "(401::int) < 800 \<longrightarrow> nw = 640
          \<and> (nh = 401 * 640 div 800 \<or> (800::int) dvd 401 * 640 \<and> nh = 401 * 640 div 800 - 1)"
    by auto
  from w have "nw = 640" "nh = 320" by simp_all
  with e have "resize_to_square strict_codec (init ''in'' 640) photo 0
        = image_resize strict_codec photo (640, 320)" by simp
  moreover have "image_resize strict_codec photo (640, 320)
        = Inr \<lparr>img_size = (640, 320), img_mode = ''RGB'',
               img_pixel = resample strict_codec photo (640, 320)\<rparr>"
    by (simp add: image_resize_def strict_codec_def photo_def)
  ultimately show ?thesis using h1 h6 by blast
qed


section \<open>The batch operation rejects a missing source folder\<close>

text \<open>
  Claim C3. When \<open>source_folder\<close> does not name an existing directory,
  \<open>process_images_in_folder\<close> raises the \<open>ValueError\<close> of the source and leaves the
  world as it was: no output directory is created and no image is processed.
\<close>

theorem process_images_in_folder_invalid_source:
  "\<not> isdir w (source_folder self) \<Longrightarrow>
     process_images_in_folder c self w = (Some invalid_source_folder, w)"
  by (simp add: process_images_in_folder_def)

theorem process_images_in_folder_invalid_source_witness:
  "\<not> isdir empty_world (source_folder (init ''missing'' 640))
   \<and> process_images_in_folder strict_codec (init ''missing'' 640) empty_world
       = (Some invalid_source_folder, empty_world)"
  using process_images_in_folder_invalid_source [of empty_world "init ''missing'' 640" strict_codec]
  by (simp add: isdir_def empty_world_def init_def)

section \<open>Resizing with the default dimension\<close>

text \<open>
  Claim C9. \<open>resize_to_square\<close> called with dimension 0 (the default) is the call with
  dimension \<open>target_size\<close>: a zero argument is replaced by the configured size, so the
  argument cannot ask for a resize to 0.
\<close>

theorem resize_to_square_default_dimension:
  "resize_to_square c self img 0 = resize_to_square c self img (target_size self)"
  by (simp add: resize_to_square_def Let_def)

section \<open>Square images\<close>

text \<open>
  Claim C4. For a square image, \<open>resize_to_square\<close> asks the codec for
  \<open>(target_size, target_size)\<close>, so the raster it returns has these dimensions, and
  \<open>apply_padding\<close> returns the image itself: no canvas is made and no pixel changes.
\<close>

theorem square_image_resize_and_padding:
  "fst (img_size img) = snd (img_size img) \<Longrightarrow>
   (rejects_resize c img (target_size self, target_size self) = None \<longrightarrow>
      (\<exists>r. resize_to_square c self img 0 = Inr r
           \<and> img_size r = (target_size self, target_size self)))
   \<and> (\<forall>r. resize_to_square c self img 0 = Inr r
           \<longrightarrow> img_size r = (target_size self, target_size self))
   \<and> apply_padding c self img pad_color = Inr img"
  by (auto simp add: resize_to_square_def apply_padding_def image_resize_def Let_def
      split: option.splits)

theorem square_image_resize_and_padding_witness:
  "fst (img_size gray_square) = snd (img_size gray_square)
   \<and> rejects_resize strict_codec gray_square (640, 640) = None
   \<and> resize_to_square strict_codec (init ''in'' 640) gray_square 0
       = Inr \<lparr>img_size = (640, 640), img_mode = ''L'',
              img_pixel = resample strict_codec gray_square (640, 640)\<rparr>
   \<and> apply_padding strict_codec (init ''in'' 640) gray_square default_pad_color = Inr gray_square"
proof -
  have h: "fst (img_size gray_square) = snd (img_size gray_square)"
    by (simp add: gray_square_def)
  have a: "rejects_resize strict_codec gray_square (640, 640) = None"
    by (simp add: strict_codec_def)
  have r: "resize_to_square strict_codec (init ''in'' 640) gray_square 0
       = Inr \<lparr>img_size = (640, 640), img_mode = ''L'',
              img_pixel = resample strict_codec gray_square (640, 640)\<rparr>"
    using a by (simp add: resize_to_square_def image_resize_def init_def gray_square_def)
  from square_image_resize_and_padding [OF h, of strict_codec "init ''in'' 640" default_pad_color]
  have "apply_padding strict_codec (init ''in'' 640) gray_square default_pad_color = Inr gray_square"
    by blast
  with h a r show ?thesis by blast
qed

section \<open>Padding a non-square image\<close>

lemma uint8_bands_range: "uint8_bands m = Some b \<Longrightarrow> 1 \<le> b \<and> b \<le> 4"
  by (auto simp add: uint8_bands_def split: if_splits)

lemma getink8_114:
  assumes "1 \<le> b" and "b \<le> 4"
  shows "getink8 b [114] = Inr (114 # replicate (b - 1) 0)"
proof -
  from assms consider "b = 1" | "b = 2" | "b = 3" | "b = 4" by linarith
  then show ?thesis
    by cases
      (simp_all add: fits_long_long_def clip8_def unpack_bytes_def numeral_2_eq_2 numeral_3_eq_3)
qed

lemma getink8_three_bands:
  assumes "getink8 3 col = Inr ink" and "length col = 3 \<or> length col = 4"
  shows "ink = map clip8 (take 3 col)"
proof -
  from assms(2) consider (three) r g b where "col = [r, g, b]"
    | (four) r g b a where "col = [r, g, b, a]"
    by (auto simp add: eval_nat_numeral length_Suc_conv)
  then show ?thesis
  proof cases
    case three
    with assms(1) show ?thesis by (simp split: if_splits)
  next
    case four
    with assms(1) show ?thesis by (simp split: if_splits)
  qed
qed

lemma apply_padding_result:
  assumes "fst (img_size img) \<noteq> snd (img_size img)"
    and "apply_padding c self img pad_color = Inr r"
  shows "\<exists>ink. fill_ink c (img_mode img) (if img_mode img = ''RGB'' then pad_color else [114])
             = Inr ink
     \<and> image_new c (img_mode img) (target_size self, target_size self)
          (if img_mode img = ''RGB'' then pad_color else [114])
         = Inr \<lparr>img_size = (target_size self, target_size self), img_mode = img_mode img,
                img_pixel = (\<lambda>x y. ink)\<rparr>
     \<and> r = image_paste \<lparr>img_size = (target_size self, target_size self),
                         img_mode = img_mode img, img_pixel = (\<lambda>x y. ink)\<rparr> img (0, 0)"
  using assms
  by (auto simp add: apply_padding_def image_new_def Let_def
      split: option.splits sum.splits if_splits)

text \<open>
  Claim C2, as stated, gives \<open>(114, 114, 114)\<close> to every three-channel image. The source
  tests the mode for equality with \<open>RGB\<close>: a \<open>YCbCr\<close> image has three channels, the
  colour handed to the codec is \<open>(114,)\<close>, and its canvas is filled with \<open>(114, 0, 0)\<close>.
\<close>

theorem apply_padding_ycbcr_fill:
  "uint8_bands (img_mode ycbcr_image) = Some 3
   \<and> fst (img_size ycbcr_image) \<noteq> snd (img_size ycbcr_image)
   \<and> \<not> isl (apply_padding strict_codec (init ''in'' 8) ycbcr_image default_pad_color)
   \<and> \<not> (5 < fst (img_size ycbcr_image) \<and> 5 < snd (img_size ycbcr_image))
   \<and> img_pixel (projr (apply_padding strict_codec (init ''in'' 8) ycbcr_image default_pad_color)) 5 5
        = [114, 0, 0]
   \<and> img_pixel (projr (apply_padding strict_codec (init ''in'' 8) ycbcr_image default_pad_color)) 5 5
        \<noteq> [114, 114, 114]"
  by (simp add: uint8_bands_def ycbcr_image_def apply_padding_def image_new_def fill_ink_def
      image_paste_def strict_codec_def init_def default_pad_color_def fits_long_long_def
      unpack_bytes_def)

text \<open>
  Claim C2, amended. For a non-square image, the raster \<open>apply_padding\<close> returns is a
  \<open>(target_size, target_size)\<close> canvas in the mode of the input, equal to the input on the
  part of the canvas the input covers from \<open>(0, 0)\<close>, and of one colour everywhere else:
  when the mode is exactly \<open>RGB\<close>, \<open>pad_color\<close> (of three or four elements) with each of
  its first three channels clipped to \<open>0..255\<close>, which is \<open>(114, 114, 114)\<close> by default;
  in every other mode of 8-bit bands, 114 in the first band and 0 in each other band:
  114 in a single-band mode, \<open>(114, 0, 0)\<close> in \<open>YCbCr\<close>, \<open>(114, 0, 0, 0)\<close> in \<open>RGBA\<close>.
\<close>

theorem apply_padding_canvas:
  assumes "fst (img_size img) \<noteq> snd (img_size img)"
    and "apply_padding c self img pad_color = Inr r"
  shows "img_size r = (target_size self, target_size self) \<and> img_mode r = img_mode img
    \<and> (\<forall>x y. 0 \<le> x \<and> x < fst (img_size img) \<and> 0 \<le> y \<and> y < snd (img_size img)
             \<and> x < target_size self \<and> y < target_size self
          \<longrightarrow> img_pixel r x y = img_pixel img x y)
    \<and> (\<exists>ink. \<forall>x y. \<not> (0 \<le> x \<and> x < fst (img_size img) \<and> 0 \<le> y \<and> y < snd (img_size img))
          \<longrightarrow> img_pixel r x y = ink)
    \<and> (img_mode img = ''RGB'' \<and> (length pad_color = 3 \<or> length pad_color = 4) \<longrightarrow>
         (\<forall>x y. \<not> (0 \<le> x \<and> x < fst (img_size img) \<and> 0 \<le> y \<and> y < snd (img_size img))
            \<longrightarrow> img_pixel r x y = map clip8 (take 3 pad_color)))
    \<and> (img_mode img \<noteq> ''RGB'' \<longrightarrow> (\<forall>b. uint8_bands (img_mode img) = Some b \<longrightarrow>
         (\<forall>x y. \<not> (0 \<le> x \<and> x < fst (img_size img) \<and> 0 \<le> y \<and> y < snd (img_size img))
            \<longrightarrow> img_pixel r x y = 114 # replicate (b - 1) 0)))"
proof -
  from apply_padding_result [OF assms]
  obtain ink where ink: "fill_ink c (img_mode img)
        (if img_mode img = ''RGB'' then pad_color else [114]) = Inr ink"
    and r: "r = image_paste \<lparr>img_size = (target_size self, target_size self),
                         img_mode = img_mode img, img_pixel = (\<lambda>x y. ink)\<rparr> img (0, 0)"
    by blast
  have shape: "img_size r = (target_size self, target_size self) \<and> img_mode r = img_mode img"
    by (simp add: r image_paste_def)
  have inside: "\<forall>x y. 0 \<le> x \<and> x < fst (img_size img) \<and> 0 \<le> y \<and> y < snd (img_size img)
             \<and> x < target_size self \<and> y < target_size self
          \<longrightarrow> img_pixel r x y = img_pixel img x y"
    by (simp add: r image_paste_def)
  have outside: "\<forall>x y. \<not> (0 \<le> x \<and> x < fst (img_size img) \<and> 0 \<le> y \<and> y < snd (img_size img))
          \<longrightarrow> img_pixel r x y = ink"
    by (auto simp add: r image_paste_def)
  have rgb: "ink = map clip8 (take 3 pad_color)"
    if "img_mode img = ''RGB''" and "length pad_color = 3 \<or> length pad_color = 4"
  proof -
    from ink that(1) have "getink8 3 pad_color = Inr ink"
      by (simp add: fill_ink_def uint8_bands_def)
    then show ?thesis using that(2) by (rule getink8_three_bands)
  qed
  have other: "ink = 114 # replicate (b - 1) 0"
    if "img_mode img \<noteq> ''RGB''" and "uint8_bands (img_mode img) = Some b" for b
  proof -
    from ink that have "getink8 b [114] = Inr ink"
      by (simp add: fill_ink_def)
    moreover from uint8_bands_range [OF that(2)]
    have "getink8 b [114] = Inr (114 # replicate (b - 1) 0)"
      by (intro getink8_114) simp_all
    ultimately show ?thesis by simp
  qed
  from shape have c1: "img_size r = (target_size self, target_size self)"
    and c2: "img_mode r = img_mode img" by simp_all
  from outside
  have c4: "\<exists>ink. \<forall>x y. \<not> (0 \<le> x \<and> x < fst (img_size img) \<and> 0 \<le> y \<and> y < snd (img_size img))
          \<longrightarrow> img_pixel r x y = ink"
    by (rule exI)
  have c5: "img_mode img = ''RGB'' \<and> (length pad_color = 3 \<or> length pad_color = 4) \<longrightarrow>
         (\<forall>x y. \<not> (0 \<le> x \<and> x < fst (img_size img) \<and> 0 \<le> y \<and> y < snd (img_size img))
            \<longrightarrow> img_pixel r x y = map clip8 (take 3 pad_color))"
  proof
    assume "img_mode img = ''RGB'' \<and> (length pad_color = 3 \<or> length pad_color = 4)"
    then have "ink = map clip8 (take 3 pad_color)" using rgb by blast
    with outside show "\<forall>x y. \<not> (0 \<le> x \<and> x < fst (img_size img) \<and> 0 \<le> y \<and> y < snd (img_size img))
            \<longrightarrow> img_pixel r x y = map clip8 (take 3 pad_color)" by simp
  qed
  have c6: "img_mode img \<noteq> ''RGB'' \<longrightarrow> (\<forall>b. uint8_bands (img_mode img) = Some b \<longrightarrow>
         (\<forall>x y. \<not> (0 \<le> x \<and> x < fst (img_size img) \<and> 0 \<le> y \<and> y < snd (img_size img))
            \<longrightarrow> img_pixel r x y = 114 # replicate (b - 1) 0))"
  proof (intro impI allI)
    fix b x y
    assume "img_mode img \<noteq> ''RGB''" and "uint8_bands (img_mode img) = Some b"
      and o: "\<not> (0 \<le> x \<and> x < fst (img_size img) \<and> 0 \<le> y \<and> y < snd (img_size img))"
    then have "ink = 114 # replicate (b - 1) 0" using other by blast
    moreover from outside o have "img_pixel r x y = ink" by blast
    ultimately show "img_pixel r x y = 114 # replicate (b - 1) 0" by simp
  qed
  show ?thesis
    by (intro conjI) (fact c1, fact c2, fact inside, fact c4, fact c5, fact c6)
qed

theorem apply_padding_canvas_witness:
  "fst (img_size rgb_image) \<noteq> snd (img_size rgb_image)
   \<and> apply_padding strict_codec (init ''in'' 8) rgb_image default_pad_color
       = Inr (image_paste \<lparr>img_size = (8, 8), img_mode = ''RGB'',
                           img_pixel = (\<lambda>x y. [114, 114, 114])\<rparr> rgb_image (0, 0))
   \<and> img_size (image_paste \<lparr>img_size = (8, 8), img_mode = ''RGB'',
                           img_pixel = (\<lambda>x y. [114, 114, 114])\<rparr> rgb_image (0, 0)) = (8, 8)
   \<and> img_pixel (image_paste \<lparr>img_size = (8, 8), img_mode = ''RGB'',
                           img_pixel = (\<lambda>x y. [114, 114, 114])\<rparr> rgb_image (0, 0)) 3 1 = [3, 1, 0]
   \<and> img_pixel (image_paste \<lparr>img_size = (8, 8), img_mode = ''RGB'',
                           img_pixel = (\<lambda>x y. [114, 114, 114])\<rparr> rgb_image (0, 0)) 3 2
        = [114, 114, 114]"
proof -
  let ?r = "image_paste \<lparr>img_size = (8, 8), img_mode = ''RGB'',
                         img_pixel = (\<lambda>x y. [114, 114, 114])\<rparr> rgb_image (0, 0)"
  have h1: "fst (img_size rgb_image) \<noteq> snd (img_size rgb_image)"
    by (simp add: rgb_image_def)
  have h2: "apply_padding strict_codec (init ''in'' 8) rgb_image default_pad_color = Inr ?r"
    by (simp add: apply_padding_def image_new_def fill_ink_def uint8_bands_def strict_codec_def
        init_def rgb_image_def default_pad_color_def fits_long_long_def fits_c_int_def clip8_def)
  note t = apply_padding_canvas [OF h1 h2]
  from t have s: "img_size ?r = (8, 8)" by (simp add: init_def)
  have m: "img_mode rgb_image = ''RGB''" "img_size rgb_image = (4, 2)"
    by (simp_all add: rgb_image_def)
  from t have "img_pixel ?r 3 1 = img_pixel rgb_image 3 1" by (simp add: m init_def)
  then have p1: "img_pixel ?r 3 1 = [3, 1, 0]" by (simp add: rgb_image_def)
  from t have "img_pixel ?r 3 2 = map clip8 (take 3 default_pad_color)"
    by (simp add: m default_pad_color_def)
  then have p2: "img_pixel ?r 3 2 = [114, 114, 114]"
    by (simp add: default_pad_color_def clip8_def)
  from h1 h2 s p1 p2 show ?thesis by blast
qed

text \<open>
  Claim C10. In every mode other than \<open>RGB\<close>, \<open>apply_padding\<close> does not depend on its
  \<open>pad_color\<close> argument: the colour it hands to the codec is the hardcoded \<open>(114,)\<close>. On a
  non-square image the result is the input pasted on the canvas the codec makes for
  \<open>(114,)\<close>, so that outside the pasted region every pixel is the ink of \<open>(114,)\<close>: in a
  mode of 8-bit bands, 114 in the first band and 0 in each other band, as in
  \<open>(114, 0, 0, 0)\<close> for \<open>RGBA\<close> and \<open>(114, 0, 0)\<close> for \<open>YCbCr\<close>.
\<close>

theorem apply_padding_ignores_pad_color:
  assumes "img_mode img \<noteq> ''RGB''"
  shows "apply_padding c self img pad_color = apply_padding c self img other_color
    \<and> (fst (img_size img) \<noteq> snd (img_size img) \<longrightarrow>
         (\<forall>r. apply_padding c self img pad_color = Inr r \<longrightarrow>
           (\<exists>canvas. image_new c (img_mode img) (target_size self, target_size self) [114]
                        = Inr canvas
              \<and> r = image_paste canvas img (0, 0)
              \<and> (\<forall>x y. \<not> (0 \<le> x \<and> x < fst (img_size img) \<and> 0 \<le> y \<and> y < snd (img_size img))
                    \<longrightarrow> img_pixel r x y = img_pixel canvas x y))
           \<and> (\<forall>b. uint8_bands (img_mode img) = Some b \<longrightarrow>
                (\<forall>x y. \<not> (0 \<le> x \<and> x < fst (img_size img) \<and> 0 \<le> y \<and> y < snd (img_size img))
                    \<longrightarrow> img_pixel r x y = 114 # replicate (b - 1) 0))))"
proof -
  have indep: "apply_padding c self img pad_color = apply_padding c self img other_color"
    using assms by (simp add: apply_padding_def Let_def)
  have filled: "(\<exists>canvas. image_new c (img_mode img) (target_size self, target_size self) [114]
                        = Inr canvas
              \<and> r = image_paste canvas img (0, 0)
              \<and> (\<forall>x y. \<not> (0 \<le> x \<and> x < fst (img_size img) \<and> 0 \<le> y \<and> y < snd (img_size img))
                    \<longrightarrow> img_pixel r x y = img_pixel canvas x y))
           \<and> (\<forall>b. uint8_bands (img_mode img) = Some b \<longrightarrow>
                (\<forall>x y. \<not> (0 \<le> x \<and> x < fst (img_size img) \<and> 0 \<le> y \<and> y < snd (img_size img))
                    \<longrightarrow> img_pixel r x y = 114 # replicate (b - 1) 0))"
    if ns: "fst (img_size img) \<noteq> snd (img_size img)"
      and res: "apply_padding c self img pad_color = Inr r" for r
  proof -
    from apply_padding_result [OF ns res] assms
    obtain ink where ink: "fill_ink c (img_mode img) [114] = Inr ink"
      and new: "image_new c (img_mode img) (target_size self, target_size self) [114]
         = Inr \<lparr>img_size = (target_size self, target_size self), img_mode = img_mode img,
                img_pixel = (\<lambda>x y. ink)\<rparr>"
      and r: "r = image_paste \<lparr>img_size = (target_size self, target_size self),
                         img_mode = img_mode img, img_pixel = (\<lambda>x y. ink)\<rparr> img (0, 0)"
      by auto
    have out: "\<forall>x y. \<not> (0 \<le> x \<and> x < fst (img_size img) \<and> 0 \<le> y \<and> y < snd (img_size img))
          \<longrightarrow> img_pixel r x y = ink"
      by (auto simp add: r image_paste_def)
    have bands: "ink = 114 # replicate (b - 1) 0" if "uint8_bands (img_mode img) = Some b" for b
    proof -
      from ink that assms have "getink8 b [114] = Inr ink" by (simp add: fill_ink_def)
      moreover from uint8_bands_range [OF that]
      have "getink8 b [114] = Inr (114 # replicate (b - 1) 0)"
        by (intro getink8_114) simp_all
      ultimately show ?thesis by simp
    qed
    have d1: "\<exists>canvas. image_new c (img_mode img) (target_size self, target_size self) [114]
                        = Inr canvas
              \<and> r = image_paste canvas img (0, 0)
              \<and> (\<forall>x y. \<not> (0 \<le> x \<and> x < fst (img_size img) \<and> 0 \<le> y \<and> y < snd (img_size img))
                    \<longrightarrow> img_pixel r x y = img_pixel canvas x y)"
      using new r out
      by (intro exI [of _ "\<lparr>img_size = (target_size self, target_size self),
            img_mode = img_mode img, img_pixel = (\<lambda>x y. ink)\<rparr>"]) simp
    have d2: "\<forall>b. uint8_bands (img_mode img) = Some b \<longrightarrow>
                (\<forall>x y. \<not> (0 \<le> x \<and> x < fst (img_size img) \<and> 0 \<le> y \<and> y < snd (img_size img))
                    \<longrightarrow> img_pixel r x y = 114 # replicate (b - 1) 0)"
    proof (intro impI allI)
      fix b x y
      assume "uint8_bands (img_mode img) = Some b"
        and o: "\<not> (0 \<le> x \<and> x < fst (img_size img) \<and> 0 \<le> y \<and> y < snd (img_size img))"
      then have "ink = 114 # replicate (b - 1) 0" using bands by blast
      moreover from out o have "img_pixel r x y = ink" by blast
      ultimately show "img_pixel r x y = 114 # replicate (b - 1) 0" by simp
    qed
    from d1 d2 show ?thesis by (rule conjI)
  qed
  have second: "fst (img_size img) \<noteq> snd (img_size img) \<longrightarrow>
         (\<forall>r. apply_padding c self img pad_color = Inr r \<longrightarrow>
           (\<exists>canvas. image_new c (img_mode img) (target_size self, target_size self) [114]
                        = Inr canvas
              \<and> r = image_paste canvas img (0, 0)
              \<and> (\<forall>x y. \<not> (0 \<le> x \<and> x < fst (img_size img) \<and> 0 \<le> y \<and> y < snd (img_size img))
                    \<longrightarrow> img_pixel r x y = img_pixel canvas x y))
           \<and> (\<forall>b. uint8_bands (img_mode img) = Some b \<longrightarrow>
                (\<forall>x y. \<not> (0 \<le> x \<and> x < fst (img_size img) \<and> 0 \<le> y \<and> y < snd (img_size img))
                    \<longrightarrow> img_pixel r x y = 114 # replicate (b - 1) 0)))"
    by (intro impI allI) (rule filled)
  from indep second show ?thesis by (rule conjI)
qed

theorem apply_padding_ignores_pad_color_witness:
  "img_mode rgba_image \<noteq> ''RGB''
   \<and> fst (img_size rgba_image) \<noteq> snd (img_size rgba_image)
   \<and> uint8_bands (img_mode rgba_image) = Some 4
   \<and> apply_padding strict_codec (init ''in'' 8) rgba_image [255, 0, 0, 255]
       = apply_padding strict_codec (init ''in'' 8) rgba_image default_pad_color
   \<and> apply_padding strict_codec (init ''in'' 8) rgba_image [255, 0, 0, 255]
       = Inr (image_paste \<lparr>img_size = (8, 8), img_mode = ''RGBA'',
                           img_pixel = (\<lambda>x y. [114, 0, 0, 0])\<rparr> rgba_image (0, 0))
   \<and> img_pixel (image_paste \<lparr>img_size = (8, 8), img_mode = ''RGBA'',
                           img_pixel = (\<lambda>x y. [114, 0, 0, 0])\<rparr> rgba_image (0, 0)) 5 5
       = [114, 0, 0, 0]"
proof -
  let ?r = "image_paste \<lparr>img_size = (8, 8), img_mode = ''RGBA'',
                         img_pixel = (\<lambda>x y. [114, 0, 0, 0])\<rparr> rgba_image (0, 0)"
  have h1: "img_mode rgba_image \<noteq> ''RGB''" by (simp add: rgba_image_def)
  have h2: "fst (img_size rgba_image) \<noteq> snd (img_size rgba_image)" by (simp add: rgba_image_def)
  have h3: "uint8_bands (img_mode rgba_image) = Some 4"
    by (simp add: rgba_image_def uint8_bands_def)
  have h4: "apply_padding strict_codec (init ''in'' 8) rgba_image [255, 0, 0, 255] = Inr ?r"
    by (simp add: apply_padding_def image_new_def fill_ink_def uint8_bands_def strict_codec_def
        init_def rgba_image_def fits_long_long_def unpack_bytes_def)
  note t = apply_padding_ignores_pad_color
    [OF h1, of strict_codec "init ''in'' 8" "[255, 0, 0, 255]" default_pad_color]
  from t have e: "apply_padding strict_codec (init ''in'' 8) rgba_image [255, 0, 0, 255]
       = apply_padding strict_codec (init ''in'' 8) rgba_image default_pad_color" by blast
  have o: "\<not> (0 \<le> (5::int) \<and> 5 < fst (img_size rgba_image)
             \<and> 0 \<le> (5::int) \<and> 5 < snd (img_size rgba_image))"
    by (simp add: rgba_image_def)
  from t h2 h4 h3 have "\<forall>x y. \<not> (0 \<le> x \<and> x < fst (img_size rgba_image)
             \<and> 0 \<le> y \<and> y < snd (img_size rgba_image))
          \<longrightarrow> img_pixel ?r x y = 114 # replicate (4 - 1) 0"
    by blast
  with o have "img_pixel ?r 5 5 = 114 # replicate (4 - 1) 0" by blast
  then have p: "img_pixel ?r 5 5 = [114, 0, 0, 0]" by (simp add: numeral_3_eq_3)
  from h1 h2 h3 e h4 p show ?thesis by blast
qed

section \<open>The configuration\<close>

text \<open>
  Claim C6, as stated, has \<open>target_size > 0\<close> hold after every construction. The
  constructor stores its argument unchecked.
\<close>

theorem init_accepts_zero_target_size: "\<not> 0 < target_size (init ''input_images'' 0)"
  by (simp add: init_def)

lemma invoke_target_size: "target_size (fst (invoke c cl st)) = target_size (fst st)"
  by (cases cl; cases st) (simp_all add: set_source_folder_def)

lemma invoke_source_folder:
  "(\<forall>p. cl \<noteq> SetSourceFolder p) \<Longrightarrow>
     source_folder (fst (invoke c cl st)) = source_folder (fst st)"
  by (cases cl; cases st) simp_all

lemma fold_invoke_target_size:
  "target_size (fst (fold (invoke c) calls st)) = target_size (fst st)"
  by (induction calls arbitrary: st) (simp_all add: invoke_target_size)

lemma fold_invoke_source_folder:
  "\<forall>cl\<in>set calls. \<forall>p. cl \<noteq> SetSourceFolder p \<Longrightarrow>
     source_folder (fst (fold (invoke c) calls st)) = source_folder (fst st)"
  by (induction calls arbitrary: st) (simp_all add: invoke_source_folder)

text \<open>
  Claim C6, amended. After construction \<open>target_size\<close> is the constructor's argument, and
  no sequence of operations changes it; so \<open>target_size > 0\<close> holds after construction and
  after every operation exactly when the processor was constructed with a positive size.
  \<open>source_folder\<close> changes only through \<open>set_source_folder\<close>.
\<close>

theorem target_size_preserved:
  "target_size (fst (fold (invoke c) calls (init folder tsize, w))) = tsize
   \<and> (0 < tsize \<longrightarrow> 0 < target_size (fst (fold (invoke c) calls (init folder tsize, w))))
   \<and> ((\<forall>cl\<in>set calls. \<forall>p. cl \<noteq> SetSourceFolder p) \<longrightarrow>
        source_folder (fst (fold (invoke c) calls (init folder tsize, w))) = folder)"
  by (simp add: fold_invoke_target_size fold_invoke_source_folder init_def)

theorem target_size_preserved_witness:
  "(0::int) < 640
   \<and> target_size (fst (fold (invoke strict_codec)
        [ResizeToSquare gray_square 0, ProcessImagesInFolder, CreateOutputFolder]
        (init ''in'' 640, empty_world))) = 640
   \<and> 0 < target_size (fst (fold (invoke strict_codec)
        [ResizeToSquare gray_square 0, ProcessImagesInFolder, CreateOutputFolder]
        (init ''in'' 640, empty_world)))
   \<and> source_folder (fst (fold (invoke strict_codec)
        [ResizeToSquare gray_square 0, ProcessImagesInFolder, CreateOutputFolder]
        (init ''in'' 640, empty_world))) = ''in''"
proof -
  have h1: "(0::int) < 640" by simp
  have h2: "\<forall>cl\<in>set [ResizeToSquare gray_square 0, ProcessImagesInFolder, CreateOutputFolder].
         \<forall>p. cl \<noteq> SetSourceFolder p" by simp
  from target_size_preserved [of strict_codec
      "[ResizeToSquare gray_square 0, ProcessImagesInFolder, CreateOutputFolder]"
      "''in''" 640 empty_world] h1 h2
  show ?thesis by blast
qed

section \<open>The canvas size and the resize dimension\<close>

text \<open>
  Claim C5. Whatever dimension \<open>resize_to_square\<close> was given, the canvas that
  \<open>apply_padding\<close> makes for its non-square result has the configured
  \<open>(target_size, target_size)\<close>.
\<close>

theorem padding_canvas_ignores_dimension:
  assumes "resize_to_square c self img dimension = Inr resized"
    and "fst (img_size resized) \<noteq> snd (img_size resized)"
    and "apply_padding c self resized pad_color = Inr canvas"
  shows "img_size canvas = (target_size self, target_size self)"
  using assms(2,3)
  by (auto simp add: apply_padding_def image_new_def image_paste_def Let_def
      split: option.splits sum.splits if_splits)

theorem padding_canvas_ignores_dimension_witness:
  "resize_to_square strict_codec (init ''in'' 640) photo 320
     = Inr \<lparr>img_size = (320, 160), img_mode = ''RGB'',
            img_pixel = resample strict_codec photo (320, 160)\<rparr>
   \<and> apply_padding strict_codec (init ''in'' 640)
       \<lparr>img_size = (320, 160), img_mode = ''RGB'',
        img_pixel = resample strict_codec photo (320, 160)\<rparr> default_pad_color
     = Inr (image_paste \<lparr>img_size = (640, 640), img_mode = ''RGB'',
                         img_pixel = (\<lambda>x y. [114, 114, 114])\<rparr>
             \<lparr>img_size = (320, 160), img_mode = ''RGB'',
              img_pixel = resample strict_codec photo (320, 160)\<rparr> (0, 0))
   \<and> img_size (image_paste \<lparr>img_size = (640, 640), img_mode = ''RGB'',
                         img_pixel = (\<lambda>x y. [114, 114, 114])\<rparr>
             \<lparr>img_size = (320, 160), img_mode = ''RGB'',
              img_pixel = resample strict_codec photo (320, 160)\<rparr> (0, 0)) = (640, 640)"
proof -
  let ?r = "\<lparr>img_size = (320, 160), img_mode = ''RGB'',
            img_pixel = resample strict_codec photo (320, 160)\<rparr>"
  let ?k = "image_paste \<lparr>img_size = (640, 640), img_mode = ''RGB'',
                         img_pixel = (\<lambda>x y. [114, 114, 114])\<rparr> ?r (0, 0)"
  have "scale_dim 401 320 800 = Inr (401 * 320 div 800)"
    by (rule scale_dim_exact) simp_all
  then have s: "scale_dim 401 320 800 = Inr 160" by simp
  have h1: "resize_to_square strict_codec (init ''in'' 640) photo 320 = Inr ?r"
    by (simp add: resize_to_square_def init_def photo_def s image_resize_def strict_codec_def)
  have h2: "fst (img_size ?r) \<noteq> snd (img_size ?r)" by simp
  have h3: "apply_padding strict_codec (init ''in'' 640) ?r default_pad_color = Inr ?k"
    by (simp add: apply_padding_def image_new_def fill_ink_def uint8_bands_def strict_codec_def
        init_def default_pad_color_def fits_long_long_def fits_c_int_def clip8_def)
  from padding_canvas_ignores_dimension [OF h1 h2 h3] have "img_size ?k = (640, 640)" by (simp add: init_def)
  with h1 h3 show ?thesis by blast
qed

section \<open>The output folder and the stored file\<close>

lemma digit_char_is_digit: "is_digit (digit_char n)"
proof -
  have "n mod 10 < length ''0123456789''" by simp
  then have "''0123456789'' ! (n mod 10) \<in> set ''0123456789''" by (rule nth_mem)
  then show ?thesis by (simp only: is_digit_def digit_char_def)
qed

lemma decimal_digits: "\<forall>ch\<in>set (decimal n). is_digit ch"
proof (induction n rule: decimal.induct)
  case (1 n)
  show ?case
  proof (cases "n < 10")
    case True
    then show ?thesis by (simp add: decimal.simps [of n] digit_char_is_digit)
  next
    case False
    with 1 show ?thesis by (simp add: decimal.simps [of n] digit_char_is_digit)
  qed
qed

lemma decimal_length_small: "n < 10 \<Longrightarrow> length (decimal n) = 1"
  by (simp add: decimal.simps [of n])

lemma decimal_length_step: "10 \<le> n \<Longrightarrow> length (decimal n) = Suc (length (decimal (n div 10)))"
  by (simp add: decimal.simps [of n])

lemma decimal_length_2:
  assumes "10 \<le> n" and "n < 100"
  shows "length (decimal n) = 2"
proof -
  from assms have "n div 10 < 10" by simp
  then have "length (decimal (n div 10)) = 1" by (rule decimal_length_small)
  with assms(1) show ?thesis by (simp add: decimal_length_step)
qed

lemma decimal_length_3:
  assumes "100 \<le> n" and "n < 1000"
  shows "length (decimal n) = 3"
proof -
  from assms have "10 \<le> n div 10" "n div 10 < 100" by simp_all
  then have "length (decimal (n div 10)) = 2" by (rule decimal_length_2)
  moreover from assms(1) have "10 \<le> n" by simp
  ultimately show ?thesis by (simp add: decimal_length_step)
qed

lemma decimal_length_4:
  assumes "1000 \<le> n" and "n < 10000"
  shows "length (decimal n) = 4"
proof -
  from assms have "100 \<le> n div 10" "n div 10 < 1000" by simp_all
  then have "length (decimal (n div 10)) = 3" by (rule decimal_length_3)
  moreover from assms(1) have "10 \<le> n" by simp
  ultimately show ?thesis by (simp add: decimal_length_step)
qed

lemma zero_pad_2_length: "n < 100 \<Longrightarrow> length (zero_pad 2 (decimal n)) = 2"
  by (cases "n < 10") (simp_all add: zero_pad_def decimal_length_small decimal_length_2)

lemma zero_pad_digits: "\<forall>ch\<in>set (zero_pad w (decimal n)). is_digit ch"
proof -
  have "is_digit CHR ''0''" by (simp add: is_digit_def)
  then show ?thesis using decimal_digits [of n] by (auto simp add: zero_pad_def)
qed

lemma strftime_DATE_FORMAT:
  "strftime DATE_FORMAT t = decimal (year t) @ zero_pad 2 (decimal (month t))
     @ zero_pad 2 (decimal (day t)) @ zero_pad 2 (decimal (hour t))
     @ zero_pad 2 (decimal (minute t)) @ zero_pad 2 (decimal (second t))"
  by (simp add: DATE_FORMAT_def directive_def)

lemma path_join_relative:
  assumes "a \<noteq> []" and "last a \<noteq> CHR ''/''" and "b \<noteq> []" and "hd b \<noteq> CHR ''/''"
  shows "path_join a b = a @ ''/'' @ b"
  using assms by (simp add: path_join_def)

text \<open>
  Claim C7. At every clock reading, \<open>create_output_folder\<close> returns \<open>dataset/\<close> followed
  by the reading formatted by \<open>DATE_FORMAT\<close>, which is fourteen decimal digits.
\<close>

theorem create_output_folder_pattern:
  assumes "valid_clock (clock w)"
  shows "\<exists>ts. create_output_folder self w = ''dataset/'' @ ts \<and> length ts = 14
           \<and> (\<forall>ch\<in>set ts. is_digit ch) \<and> ts = strftime DATE_FORMAT (clock w)"
proof -
  let ?t = "clock w"
  let ?ts = "strftime DATE_FORMAT ?t"
  from assms have y: "1000 \<le> year ?t" "year ?t < 10000"
    and rest: "month ?t < 100" "day ?t < 100" "hour ?t < 100" "minute ?t < 100" "second ?t < 100"
    by (simp_all add: valid_clock_def)
  have len: "length ?ts = 14"
    by (simp add: strftime_DATE_FORMAT decimal_length_4 [OF y] zero_pad_2_length rest)
  have dig: "\<forall>ch\<in>set ?ts. is_digit ch"
    by (simp add: strftime_DATE_FORMAT decimal_digits zero_pad_digits ball_Un)
  from len have ne: "?ts \<noteq> []" by auto
  then have "hd ?ts \<in> set ?ts" by simp
  with dig have hdig: "is_digit (hd ?ts)" by blast
  have hd: "hd ?ts \<noteq> CHR ''/''"
  proof
    assume "hd ?ts = CHR ''/''"
    with hdig have "is_digit CHR ''/''" by simp
    then show False by (simp add: is_digit_def)
  qed
  have "path_join OUTPUT_FOLDER ?ts = OUTPUT_FOLDER @ ''/'' @ ?ts"
    by (rule path_join_relative) (simp_all add: OUTPUT_FOLDER_def ne hd)
  then have "create_output_folder self w = ''dataset/'' @ ?ts"
    by (simp add: create_output_folder_def OUTPUT_FOLDER_def)
  with len dig show ?thesis by blast
qed

theorem create_output_folder_pattern_witness:
  "valid_clock (clock empty_world)
   \<and> create_output_folder (init ''in'' 640) empty_world = ''dataset/20240309070500''
   \<and> length ''20240309070500'' = 14"
proof -
  have h: "valid_clock (clock empty_world)"
    by (simp add: valid_clock_def empty_world_def morning_def)
  from create_output_folder_pattern [OF h, of "init ''in'' 640"]
  have "create_output_folder (init ''in'' 640) empty_world
          = ''dataset/'' @ strftime DATE_FORMAT (clock empty_world)"
    by blast
  moreover have "strftime DATE_FORMAT (clock empty_world) = ''20240309070500''"
    by (simp add: strftime_DATE_FORMAT empty_world_def morning_def decimal.simps
        digit_char_def zero_pad_def)
  ultimately show ?thesis using h by simp
qed

lemma basename_no_slash: "CHR ''/'' \<notin> set (basename p)"
  by (auto simp add: basename_def dest: set_takeWhileD)

lemma takeWhile_no_slash:
  "CHR ''/'' \<notin> set n \<Longrightarrow> takeWhile (\<lambda>c. c \<noteq> CHR ''/'') n = n"
  by (induction n) auto

lemma basename_plain: "CHR ''/'' \<notin> set n \<Longrightarrow> basename n = n"
  by (simp add: basename_def takeWhile_no_slash)

lemma basename_after_slash: "CHR ''/'' \<notin> set n \<Longrightarrow> basename (a @ CHR ''/'' # n) = n"
proof -
  assume n: "CHR ''/'' \<notin> set n"
  have "takeWhile (\<lambda>c. c \<noteq> CHR ''/'') (rev n @ CHR ''/'' # rev a) = rev n"
    using n by (simp add: takeWhile_tail takeWhile_no_slash)
  then show ?thesis by (simp add: basename_def)
qed

lemma basename_path_join: "basename (path_join out (basename p)) = basename p"
proof -
  let ?n = "basename p"
  have n: "CHR ''/'' \<notin> set ?n" by (rule basename_no_slash)
  have rel: "\<not> (?n \<noteq> [] \<and> hd ?n = CHR ''/'')"
  proof
    assume a: "?n \<noteq> [] \<and> hd ?n = CHR ''/''"
    then have "?n \<noteq> []" by simp
    then have "hd ?n \<in> set ?n" by (rule hd_in_set)
    with a n show False by simp
  qed
  show ?thesis
  proof (cases "out = []")
    case True
    with rel n show ?thesis by (simp add: path_join_def basename_plain)
  next
    case False
    show ?thesis
    proof (cases "last out = CHR ''/''")
      case True
      from False have "butlast out @ [last out] = out" by simp
      with True have e: "butlast out @ [CHR ''/''] = out" by simp
      have "path_join out ?n = out @ ?n"
        using rel True False by (simp add: path_join_def)
      also have "\<dots> = butlast out @ CHR ''/'' # ?n"
        using arg_cong [OF e, of "\<lambda>z. z @ ?n"] by simp
      finally show ?thesis using n by (simp add: basename_after_slash)
    next
      case True': False
      with False rel have "path_join out ?n = out @ CHR ''/'' # ?n"
        by (simp add: path_join_def)
      with n show ?thesis by (simp add: basename_after_slash)
    qed
  qed
qed

lemma image_save_stored:
  "fst (image_save c img p w) = None \<Longrightarrow>
     map_of (nodes (snd (image_save c img p w))) p = Some (File (ImageFile img))"
  by (auto simp add: image_save_def update_conv' split: option.splits if_splits)

text \<open>
  Claim C8. \<open>store_image\<close> saves the image at the join of the output directory with the base
  name of the original path; the base name of that path is the base name of the original,
  extension included; and when the save succeeds the image is the content of that path.
\<close>

theorem store_image_keeps_basename:
  "store_image c img original_img_path output_dir w
     = image_save c img (path_join output_dir (basename original_img_path)) w
   \<and> basename (path_join output_dir (basename original_img_path)) = basename original_img_path
   \<and> (fst (store_image c img original_img_path output_dir w) = None \<longrightarrow>
        map_of (nodes (snd (store_image c img original_img_path output_dir w)))
          (path_join output_dir (basename original_img_path)) = Some (File (ImageFile img)))"
  by (simp add: store_image_def basename_path_join image_save_stored Let_def)

theorem store_image_keeps_basename_witness:
  "fst (store_image strict_codec rgb_image ''input_images/cat.png'' ''out'' out_world) = None
   \<and> path_join ''out'' (basename ''input_images/cat.png'') = ''out/cat.png''
   \<and> map_of (nodes (snd (store_image strict_codec rgb_image ''input_images/cat.png'' ''out''
         out_world))) (path_join ''out'' (basename ''input_images/cat.png''))
       = Some (File (ImageFile rgb_image))"
proof -
  have p: "path_join ''out'' (basename ''input_images/cat.png'') = ''out/cat.png''"
    by (simp add: basename_def path_join_def)
  have h: "fst (store_image strict_codec rgb_image ''input_images/cat.png'' ''out'' out_world) = None"
    by (simp add: store_image_def p image_save_def strict_codec_def out_world_def dirname_def
        isdir_def)
  from store_image_keeps_basename
    [of strict_codec rgb_image "''input_images/cat.png''" "''out''" out_world] h
  have "map_of (nodes (snd (store_image strict_codec rgb_image ''input_images/cat.png'' ''out''
         out_world))) (path_join ''out'' (basename ''input_images/cat.png''))
       = Some (File (ImageFile rgb_image))" by blast
  with h p show ?thesis by blast
qed

end
